theory Spec2Isabelle
  imports Main
begin

section \<open>Data model\<close>

text \<open>
  The engine of \<^verbatim>\<open>src/bidoc.ts\<close> works on JavaScript objects that are shared and
  mutated in place: a \<^verbatim>\<open>Definition\<close> is reachable from \<^verbatim>\<open>name2def\<close> (under its name
  and every alias), from \<^verbatim>\<open>id2def\<close> and from every \<^verbatim>\<open>Reference\<close> that targets it, and
  \<^verbatim>\<open>refs.push\<close> through one of these paths is seen through all others. Objects therefore
  live in a store and are named by their address.

  Strings are \<open>string\<close>. A JavaScript number that holds an index is an \<open>int\<close>: indices
  start at \<open>-1\<close> and grow by one, and are taken to stay in the range where a number is an
  exact integer. The type of a \<^verbatim>\<open>Position\<close> is never inspected by the engine and is a
  type parameter.
\<close>

type_synonym addr = nat

record 'p Fragment =
  content :: string
  skip :: bool
  position :: 'p

datatype ref_type = explicit | escaped | implicit

record Reference =
  ref_def :: addr
  ref_path :: string
  ref_fragment :: addr
  ref_type :: ref_type
  ref_index :: int
  ref_name :: string

record Definition =
  def_name :: string
  def_alias :: "string list"
  def_id :: string
  def_fragment :: addr
  def_refs :: "Reference list"

text \<open>
  The store: fragment objects and definition objects, each with its allocation counter.
  The engine creates a fragment in \<^verbatim>\<open>renderText\<close> and enters the definitions it
  collects; an address at or above a counter stands for an object that came from elsewhere.
\<close>

record 'p fheap =
  frags :: "addr \<Rightarrow> 'p Fragment"
  nfrags :: nat

record 'p heap =
  defs :: "addr \<Rightarrow> Definition"
  ndefs :: nat
  fragments :: "'p fheap"

text \<open>
  A JavaScript \<^verbatim>\<open>Map\<close> with string keys: an association list in insertion order;
  \<^verbatim>\<open>set\<close> on a key that is present replaces its value in place, a new key goes to the end.
\<close>

type_synonym 'v jsmap = "(string \<times> 'v) list"

definition map_has :: "string \<Rightarrow> 'v jsmap \<Rightarrow> bool" where
  "map_has k m = (map_of m k \<noteq> None)"

definition map_get :: "string \<Rightarrow> 'v jsmap \<Rightarrow> 'v option" where
  "map_get k m = map_of m k"

fun map_set :: "string \<Rightarrow> 'v \<Rightarrow> 'v jsmap \<Rightarrow> 'v jsmap" where
  "map_set k v [] = [(k, v)]"
| "map_set k v ((k', v') # m) = (if k = k' then (k, v) # m else (k', v') # map_set k v m)"

text \<open>
  What a call throws. \<open>Error m\<close> is \<^verbatim>\<open>new Error(m)\<close>; \<open>TypeError\<close> is the error of
  reading a property of \<^verbatim>\<open>undefined\<close> (its message is the runtime's own).
\<close>

datatype error = Error string | TypeError

text \<open>The class instance: the two registries and the two generators.\<close>

record 'p bidoc =
  name2def :: "addr jsmap"
  id2def :: "addr jsmap"
  defIdGenerator :: "string \<Rightarrow> string"
  refIdGenerator :: "'p heap \<Rightarrow> Reference \<Rightarrow> string"

text \<open>
  \<^verbatim>\<open>BiParser\<close> (\<^verbatim>\<open>parser.ts\<close>) is taken as a parameter. Each function may throw, and
  may create fragment objects, so it maps the fragment store to a new one. The two
  definition parsers are static functions of the text or fragments alone: the definitions
  they return are new objects, given here by value. A match of
  \<^verbatim>\<open>parseExplicitOrEscapedReference\<close> names its target definition, its fragment and
  its type; a match of \<^verbatim>\<open>parseImplicitReference\<close> is a fragment.
\<close>

record parsed_ref =
  p_def :: addr
  p_fragment :: addr
  p_type :: ref_type

record 'p biparser =
  parseDefinition ::
    "string \<Rightarrow> string \<Rightarrow> 'p \<Rightarrow> 'p fheap \<Rightarrow> error + ('p fheap \<times> Definition list \<times> addr list)"
  parseDefinitionFromFragments ::
    "addr list \<Rightarrow> string \<Rightarrow> 'p fheap \<Rightarrow> error + ('p fheap \<times> Definition list \<times> addr list)"
  parseExplicitOrEscapedReference ::
    "addr list \<Rightarrow> string \<Rightarrow> addr jsmap \<Rightarrow> addr jsmap \<Rightarrow> 'p heap
      \<Rightarrow> error + ('p fheap \<times> parsed_ref list \<times> addr list)"
  parseImplicitReference ::
    "addr list \<Rightarrow> string \<Rightarrow> 'p fheap \<Rightarrow> error + ('p fheap \<times> addr list \<times> addr list)"

section \<open>JavaScript built-ins used by the engine\<close>

text \<open>\<^verbatim>\<open>xs.slice(start, fin)\<close>: negative arguments count from the end, both are clamped.\<close>

definition slice :: "int \<Rightarrow> int \<Rightarrow> 'a list \<Rightarrow> 'a list" where
  "slice start fin xs =
     (let len = int (length xs);
          k = (if start < 0 then max (len + start) 0 else min start len);
          final = (if fin < 0 then max (len + fin) 0 else min fin len)
      in take (nat (final - k)) (drop (nat k) xs))"

text \<open>\<^verbatim>\<open>refs.at(-1)?.index ?? -1\<close>: the index of the last element, \<open>-1\<close> for an empty array.\<close>

definition lastIndex :: "Reference list \<Rightarrow> int" where
  "lastIndex refs = (if refs = [] then - 1 else ref_index (last refs))"

text \<open>The decimal form of an integer number, as a template literal prints it.\<close>

fun show_nat :: "nat \<Rightarrow> string" where
  "show_nat n =
     (if n < 10 then [''0123456789'' ! n]
      else show_nat (n div 10) @ [''0123456789'' ! (n mod 10)])"

definition number_to_string :: "int \<Rightarrow> string" where
  "number_to_string i = (if i < 0 then ''-'' @ show_nat (nat (- i)) else show_nat (nat i))"

text \<open>\<^verbatim>\<open>JSON.stringify\<close> of a string, and of the argument of \<^verbatim>\<open>getReverseRefs\<close>.\<close>

datatype lookup_options = ById string | ByName string

definition json_char :: "char \<Rightarrow> string" where
  "json_char c =
     (if c = CHR 0x08 then [CHR 0x5C, CHR ''b'']
      else if c = CHR 0x09 then [CHR 0x5C, CHR ''t'']
      else if c = CHR 0x0A then [CHR 0x5C, CHR ''n'']
      else if c = CHR 0x0C then [CHR 0x5C, CHR ''f'']
      else if c = CHR 0x0D then [CHR 0x5C, CHR ''r'']
      else if c = CHR 0x22 then [CHR 0x5C, CHR 0x22]
      else if c = CHR 0x5C then [CHR 0x5C, CHR 0x5C]
      else if (of_char c :: nat) < 32 then
        [CHR 0x5C, CHR ''u'', CHR ''0'', CHR ''0'',
         ''0123456789abcdef'' ! ((of_char c :: nat) div 16),
         ''0123456789abcdef'' ! ((of_char c :: nat) mod 16)]
      else [c])"

definition json_string :: "string \<Rightarrow> string" where
  "json_string s = [CHR 0x22] @ concat (map json_char s) @ [CHR 0x22]"

fun JSON_stringify :: "lookup_options \<Rightarrow> string" where
  "JSON_stringify (ById i) = ''{'' @ json_string ''id'' @ '':'' @ json_string i @ ''}''"
| "JSON_stringify (ByName n) = ''{'' @ json_string ''name'' @ '':'' @ json_string n @ ''}''"

section \<open>The engine\<close>

subsection \<open>Constructor\<close>

text \<open>
  \<^verbatim>\<open>options?.defIdGenerator ?? ((name) => uslug(name))\<close> and the same for
  \<^verbatim>\<open>refIdGenerator\<close>; \<open>uslug\<close> is the imported library function.
\<close>

record 'p ctor_options =
  opt_defIdGenerator :: "(string \<Rightarrow> string) option"
  opt_refIdGenerator :: "('p heap \<Rightarrow> Reference \<Rightarrow> string) option"

definition BiDoc :: "(string \<Rightarrow> string) \<Rightarrow> 'p ctor_options option \<Rightarrow> 'p bidoc" where
  "BiDoc uslug options =
     \<lparr> name2def = [],
       id2def = [],
       defIdGenerator =
         (case Option.bind options opt_defIdGenerator of
            Some g \<Rightarrow> g
          | None \<Rightarrow> (\<lambda>name. uslug name)),
       refIdGenerator =
         (case Option.bind options opt_refIdGenerator of
            Some g \<Rightarrow> g
          | None \<Rightarrow> (\<lambda>h ref. def_id (defs h (ref_def ref)) @ ''-ref-''
                               @ number_to_string (ref_index ref + 1))) \<rparr>"

subsection \<open>Store updates\<close>

definition push_ref :: "addr \<Rightarrow> Reference \<Rightarrow> 'p heap \<Rightarrow> 'p heap" where
  "push_ref a ref h =
     h\<lparr>defs := (defs h)(a := (defs h a)\<lparr>def_refs := def_refs (defs h a) @ [ref]\<rparr>)\<rparr>"

definition set_content :: "addr \<Rightarrow> string \<Rightarrow> 'p heap \<Rightarrow> 'p heap" where
  "set_content f s h =
     h\<lparr>fragments := (fragments h)
          \<lparr>frags := (frags (fragments h))(f := (frags (fragments h) f)\<lparr>content := s\<rparr>)\<rparr>\<rparr>"

definition get_content :: "'p heap \<Rightarrow> addr \<Rightarrow> string" where
  "get_content h f = content (frags (fragments h) f)"

subsection \<open>collectDefinition\<close>

text \<open>The body of \<^verbatim>\<open>res.defs.forEach\<close>: one parsed definition \<open>d\<close>.\<close>

definition assign_id :: "'p bidoc \<Rightarrow> Definition \<Rightarrow> Definition" where
  "assign_id b d = (if length (def_id d) = 0 then d\<lparr>def_id := defIdGenerator b (def_name d)\<rparr> else d)"

definition duplicate_name :: "string \<Rightarrow> string \<Rightarrow> error" where
  "duplicate_name n path = Error (''Duplicate definition name: '' @ n @ '' in file '' @ path)"

definition duplicate_id :: "string \<Rightarrow> string \<Rightarrow> error" where
  "duplicate_id i path = Error (''Duplicate definition id: '' @ i @ '' in file '' @ path)"

definition collect_one ::
  "string \<Rightarrow> Definition \<Rightarrow> 'p bidoc \<times> 'p heap \<Rightarrow> ('p bidoc \<times> 'p heap) \<times> (error + addr)" where
  "collect_one path d0 s =
     (let b = fst s; h = snd s; d = assign_id b d0 in
      if map_has (def_name d) (name2def b) then (s, Inl (duplicate_name (def_name d) path))
      else if map_has (def_id d) (id2def b) then (s, Inl (duplicate_id (def_id d) path))
      else case find (\<lambda>a. map_has a (name2def b)) (def_alias d) of
        Some a \<Rightarrow> (s, Inl (duplicate_name a path))
      | None \<Rightarrow>
         (let p = ndefs h;
              h' = h\<lparr>defs := (defs h)(p := d), ndefs := p + 1\<rparr>;
              b1 = b\<lparr>name2def := map_set (def_name d) p (name2def b)\<rparr>;
              b2 = b1\<lparr>id2def := map_set (def_id d) p (id2def b1)\<rparr>;
              b3 = b2\<lparr>name2def := fold (\<lambda>a m. map_set a p m) (def_alias d) (name2def b2)\<rparr>
          in ((b3, h'), Inr p)))"

text \<open>\<^verbatim>\<open>forEach\<close> stops at the first throw; what was registered before stays registered.\<close>

fun collect_all ::
  "string \<Rightarrow> Definition list \<Rightarrow> 'p bidoc \<times> 'p heap \<Rightarrow> ('p bidoc \<times> 'p heap) \<times> (error + addr list)" where
  "collect_all path [] s = (s, Inr [])"
| "collect_all path (d # ds) s =
     (case collect_one path d s of
        (s', Inl e) \<Rightarrow> (s', Inl e)
      | (s', Inr p) \<Rightarrow>
          (case collect_all path ds s' of
             (s'', Inl e) \<Rightarrow> (s'', Inl e)
           | (s'', Inr ps) \<Rightarrow> (s'', Inr (p # ps))))"

definition collectDefinition ::
  "'p biparser \<Rightarrow> string \<Rightarrow> string \<Rightarrow> 'p \<Rightarrow> 'p bidoc \<times> 'p heap
     \<Rightarrow> ('p bidoc \<times> 'p heap) \<times> (error + addr list \<times> addr list)" where
  "collectDefinition P text path pos s =
     (case parseDefinition P text path pos (fragments (snd s)) of
        Inl e \<Rightarrow> (s, Inl e)
      | Inr (fh, ds, fs) \<Rightarrow>
          (case collect_all path ds (fst s, (snd s)\<lparr>fragments := fh\<rparr>) of
             (s', Inl e) \<Rightarrow> (s', Inl e)
           | (s', Inr ps) \<Rightarrow> (s', Inr (ps, fs))))"

subsection \<open>renderDefinition\<close>

text \<open>
  A renderer is a caller's function of the object it is given; it may read whatever that
  object reaches, so it takes the store as well.
\<close>

type_synonym 'p DefRenderer = "'p heap \<Rightarrow> Definition \<Rightarrow> string"
type_synonym 'p RefRenderer = "'p heap \<Rightarrow> Reference \<Rightarrow> string"

definition render_one_definition :: "'p bidoc \<Rightarrow> 'p DefRenderer \<Rightarrow> Definition \<Rightarrow> 'p heap \<Rightarrow> 'p heap" where
  "render_one_definition b renderer d0 h =
     (let d = assign_id b d0 in set_content (def_fragment d) (renderer h d) h)"

definition renderDefinition ::
  "'p biparser \<Rightarrow> 'p bidoc \<Rightarrow> string \<Rightarrow> addr list \<Rightarrow> 'p DefRenderer \<Rightarrow> 'p heap
     \<Rightarrow> 'p heap \<times> (error + addr list)" where
  "renderDefinition P b path fs renderer h =
     (case parseDefinitionFromFragments P fs path (fragments h) of
        Inl e \<Rightarrow> (h, Inl e)
      | Inr (fh, ds, fs') \<Rightarrow>
          (fold (render_one_definition b renderer) ds (h\<lparr>fragments := fh\<rparr>), Inr fs'))"

subsection \<open>renderExplicitOrEscapedReference\<close>

text \<open>
  The body of \<^verbatim>\<open>res.refs.forEach\<close>. The object literal is evaluated field by field:
  \<^verbatim>\<open>index\<close> from the target's \<^verbatim>\<open>refs\<close>, then \<^verbatim>\<open>name\<close>, where
  \<^verbatim>\<open>this.id2def.get(...)!.name\<close> throws when the key is absent (the \<^verbatim>\<open>!\<close> is erased
  at run time); only then is the reference pushed and the fragment rewritten.
\<close>

definition marker_id :: "'p heap \<Rightarrow> parsed_ref \<Rightarrow> string" where
  "marker_id h r = slice 3 (- 2) (get_content h (p_fragment r))"

definition render_one_reference ::
  "'p bidoc \<Rightarrow> string \<Rightarrow> 'p RefRenderer \<Rightarrow> parsed_ref \<Rightarrow> 'p heap \<Rightarrow> 'p heap \<times> (error + unit)" where
  "render_one_reference b path renderer r h =
     (let idx = (if p_type r = escaped then lastIndex (def_refs (defs h (p_def r)))
                 else lastIndex (def_refs (defs h (p_def r))) + 1);
          nm = (if p_type r = escaped then Some (marker_id h r)
                else map_option (\<lambda>a. def_name (defs h a)) (map_get (marker_id h r) (id2def b)))
      in case nm of
           None \<Rightarrow> (h, Inl TypeError)
         | Some n \<Rightarrow>
            (let ref = \<lparr> ref_def = p_def r, ref_path = path, ref_fragment = p_fragment r,
                         ref_type = p_type r, ref_index = idx, ref_name = n \<rparr>;
                 h1 = push_ref (p_def r) ref h
             in (set_content (p_fragment r)
                   (if p_type r = explicit then renderer h1 ref else ref_name ref) h1, Inr ())))"

fun render_references ::
  "'p bidoc \<Rightarrow> string \<Rightarrow> 'p RefRenderer \<Rightarrow> parsed_ref list \<Rightarrow> 'p heap \<Rightarrow> 'p heap \<times> (error + unit)" where
  "render_references b path renderer [] h = (h, Inr ())"
| "render_references b path renderer (r # rs) h =
     (case render_one_reference b path renderer r h of
        (h', Inl e) \<Rightarrow> (h', Inl e)
      | (h', Inr u) \<Rightarrow> render_references b path renderer rs h')"

definition renderExplicitOrEscapedReference ::
  "'p biparser \<Rightarrow> 'p bidoc \<Rightarrow> string \<Rightarrow> addr list \<Rightarrow> 'p RefRenderer \<Rightarrow> 'p heap
     \<Rightarrow> 'p heap \<times> (error + addr list)" where
  "renderExplicitOrEscapedReference P b path fs renderer h =
     (case parseExplicitOrEscapedReference P fs path (name2def b) (id2def b) h of
        Inl e \<Rightarrow> (h, Inl e)
      | Inr (fh, rs, fs') \<Rightarrow>
          (case render_references b path renderer rs (h\<lparr>fragments := fh\<rparr>) of
             (h', Inl e) \<Rightarrow> (h', Inl e)
           | (h', Inr u) \<Rightarrow> (h', Inr fs')))"

subsection \<open>renderImplicitReference\<close>

definition render_one_implicit :: "string \<Rightarrow> addr \<Rightarrow> 'p RefRenderer \<Rightarrow> addr \<Rightarrow> 'p heap \<Rightarrow> 'p heap" where
  "render_one_implicit path def renderer r h =
     (let ref = \<lparr> ref_def = def, ref_path = path, ref_fragment = r, ref_type = implicit,
                  ref_index = lastIndex (def_refs (defs h def)) + 1,
                  ref_name = get_content h r \<rparr>;
          h1 = push_ref def ref h
      in set_content r (renderer h1 ref) h1)"

definition renderImplicitReference ::
  "'p biparser \<Rightarrow> string \<Rightarrow> addr list \<Rightarrow> addr \<Rightarrow> string \<Rightarrow> 'p RefRenderer \<Rightarrow> 'p heap
     \<Rightarrow> 'p heap \<times> (error + addr list)" where
  "renderImplicitReference P path fs def name renderer h =
     (case parseImplicitReference P fs name (fragments h) of
        Inl e \<Rightarrow> (h, Inl e)
      | Inr (fh, rs, fs') \<Rightarrow>
          (fold (render_one_implicit path def renderer) rs (h\<lparr>fragments := fh\<rparr>), Inr fs'))"

subsection \<open>renderText\<close>

text \<open>\<^verbatim>\<open>this.name2def.forEach((def, content) => ...)\<close>: the entries \<open>(key, def)\<close> in insertion order.\<close>

fun render_implicit_all ::
  "'p biparser \<Rightarrow> string \<Rightarrow> 'p RefRenderer \<Rightarrow> addr jsmap \<Rightarrow> addr list \<Rightarrow> 'p heap
     \<Rightarrow> 'p heap \<times> (error + addr list)" where
  "render_implicit_all P path renderer [] fs h = (h, Inr fs)"
| "render_implicit_all P path renderer ((key, def) # m) fs h =
     (case renderImplicitReference P path fs def key renderer h of
        (h', Inl e) \<Rightarrow> (h', Inl e)
      | (h', Inr fs') \<Rightarrow> render_implicit_all P path renderer m fs' h')"

definition new_fragment :: "'p Fragment \<Rightarrow> 'p heap \<Rightarrow> addr \<times> 'p heap" where
  "new_fragment f h =
     (let a = nfrags (fragments h)
      in (a, h\<lparr>fragments := (fragments h)\<lparr>frags := (frags (fragments h))(a := f), nfrags := a + 1\<rparr>\<rparr>))"

definition renderText ::
  "'p biparser \<Rightarrow> 'p bidoc \<Rightarrow> string \<Rightarrow> string \<Rightarrow> 'p \<Rightarrow> 'p DefRenderer \<Rightarrow> 'p RefRenderer \<Rightarrow> 'p heap
     \<Rightarrow> 'p heap \<times> (error + string)" where
  "renderText P b path s pos defRenderer refRenderer h =
     (case new_fragment \<lparr> content = s, skip = False, position = pos \<rparr> h of
        (a, h0) \<Rightarrow>
     (case renderDefinition P b path [a] defRenderer h0 of
        (h1, Inl e) \<Rightarrow> (h1, Inl e)
      | (h1, Inr fs1) \<Rightarrow>
     (case renderExplicitOrEscapedReference P b path fs1 refRenderer h1 of
        (h2, Inl e) \<Rightarrow> (h2, Inl e)
      | (h2, Inr fs2) \<Rightarrow>
     (case render_implicit_all P path refRenderer (name2def b) fs2 h2 of
        (h3, Inl e) \<Rightarrow> (h3, Inl e)
      | (h3, Inr fs3) \<Rightarrow> (h3, Inr (concat (map (get_content h3) fs3)))))))"

subsection \<open>getReverseRefs\<close>

definition getReverseRefs :: "lookup_options \<Rightarrow> 'p bidoc \<Rightarrow> 'p heap \<Rightarrow> error + string list" where
  "getReverseRefs options b h =
     (case (case options of
              ById i \<Rightarrow> map_get i (id2def b)
            | ByName n \<Rightarrow> map_get n (name2def b)) of
        None \<Rightarrow> Inl (Error (''Definition not found: '' @ JSON_stringify options))
      | Some a \<Rightarrow> Inr (map (\<lambda>ref. ref_path ref @ ''#'' @ refIdGenerator b h ref) (def_refs (defs h a))))"

section \<open>Specification functions\<close>

text \<open>
  The ordinals that a run of matches against one definition receives, from the last index
  recorded before the run: an escaped match repeats it, any other match takes the next one.
\<close>

fun spec_indices :: "int \<Rightarrow> ref_type list \<Rightarrow> int list" where
  "spec_indices l [] = []"
| "spec_indices l (t # ts) = (let i = (if t = escaped then l else l + 1) in i # spec_indices i ts)"

text \<open>
  The implicit stage as a chain of states (store and fragment sequence): one call of
  \<^verbatim>\<open>renderImplicitReference\<close> per entry of the map, entry \<open>k\<close> taking state \<open>k\<close> to
  state \<open>k + 1\<close> without throwing.
\<close>

definition implicit_chain ::
  "'p biparser \<Rightarrow> string \<Rightarrow> 'p RefRenderer \<Rightarrow> addr jsmap \<Rightarrow> ('p heap \<times> addr list) list \<Rightarrow> bool" where
  "implicit_chain P path renderer m sts \<longleftrightarrow>
     length sts = Suc (length m) \<and>
     (\<forall>k < length m.
        renderImplicitReference P path (snd (sts ! k)) (snd (m ! k)) (fst (m ! k)) renderer (fst (sts ! k))
          = (fst (sts ! Suc k), Inr (snd (sts ! Suc k))))"

text \<open>What \<^verbatim>\<open>getReverseRefs\<close> throws, and the links of the definition at an address.\<close>

definition not_found :: "lookup_options \<Rightarrow> error" where
  "not_found options = Error (''Definition not found: '' @ JSON_stringify options)"

definition links :: "'p bidoc \<Rightarrow> 'p heap \<Rightarrow> addr \<Rightarrow> string list" where
  "links b h a = map (\<lambda>ref. ref_path ref @ ''#'' @ refIdGenerator b h ref) (def_refs (defs h a))"

section \<open>The registry invariant\<close>

text \<open>
  The definitions the engine has registered, by address; the names of a definition (its
  name, then its aliases); and what the engine keeps true of every registered definition:
  it is allocated, its id leads to it in \<open>id2def\<close>, and each of its names leads to it in
  \<open>name2def\<close>.
\<close>

definition registered :: "'p bidoc \<Rightarrow> addr set" where
  "registered b = snd ` set (id2def b) \<union> snd ` set (name2def b)"

definition names_of :: "'p heap \<Rightarrow> addr \<Rightarrow> string list" where
  "names_of h a = def_name (defs h a) # def_alias (defs h a)"

definition reg_inv :: "'p bidoc \<Rightarrow> 'p heap \<Rightarrow> bool" where
  "reg_inv b h \<longleftrightarrow>
     (\<forall>a \<in> registered b.
        a < ndefs h \<and>
        map_get (def_id (defs h a)) (id2def b) = Some a \<and>
        (\<forall>n \<in> set (names_of h a). map_get n (name2def b) = Some a))"

text \<open>Rendering changes the \<open>refs\<close> of definitions and the fragments, never a name, alias or id.\<close>

definition frame :: "'p heap \<Rightarrow> 'p heap \<Rightarrow> bool" where
  "frame h h' \<longleftrightarrow>
     ndefs h' = ndefs h \<and>
     (\<forall>a. def_name (defs h' a) = def_name (defs h a) \<and>
          def_alias (defs h' a) = def_alias (defs h a) \<and>
          def_id (defs h' a) = def_id (defs h a))"

text \<open>
  The states of an engine: it is constructed, and then \<^verbatim>\<open>collectDefinition\<close> and
  \<^verbatim>\<open>renderText\<close> are called in any order, with any arguments; a call that throws
  leaves the state it had reached.
\<close>

inductive reachable :: "'p bidoc \<times> 'p heap \<Rightarrow> bool" where
  constructed: "reachable (BiDoc uslug options, h)"
| collected: "reachable s \<Longrightarrow> reachable (fst (collectDefinition P text path pos s))"
| rendered: "reachable (b, h) \<Longrightarrow> reachable (b, fst (renderText P b path s pos defRenderer refRenderer h))"

text \<open>
  A parsed definition collides with the registry when its name, its id (after assignment)
  or one of its aliases is a key already; \<open>register\<close> is what the three
  \<^verbatim>\<open>set\<close> calls do to a definition that does not.
\<close>

definition collides :: "'p bidoc \<Rightarrow> Definition \<Rightarrow> bool" where
  "collides b d0 \<longleftrightarrow>
     (let d = assign_id b d0 in
        map_has (def_name d) (name2def b) \<or> map_has (def_id d) (id2def b) \<or>
        (\<exists>a \<in> set (def_alias d). map_has a (name2def b)))"

definition register :: "Definition \<Rightarrow> 'p bidoc \<times> 'p heap \<Rightarrow> 'p bidoc \<times> 'p heap" where
  "register d s =
     (let b = fst s; h = snd s; p = ndefs h in
        (b\<lparr>name2def := fold (\<lambda>a m. map_set a p m) (def_alias d) (map_set (def_name d) p (name2def b)),
           id2def := map_set (def_id d) p (id2def b)\<rparr>,
         h\<lparr>defs := (defs h)(p := d), ndefs := p + 1\<rparr>))"

text \<open>
  A definition \<open>d\<close> is registered at address \<open>p\<close>: the object at \<open>p\<close> is \<open>d\<close>, and its
  name, its id and every alias lead to \<open>p\<close>. A later state extends an earlier one when
  no key has changed its target and no allocated definition has changed.
\<close>

definition registered_as :: "'p bidoc \<times> 'p heap \<Rightarrow> Definition \<Rightarrow> addr \<Rightarrow> bool" where
  "registered_as s d p \<longleftrightarrow>
     p < ndefs (snd s) \<and> defs (snd s) p = d \<and>
     map_get (def_name d) (name2def (fst s)) = Some p \<and>
     map_get (def_id d) (id2def (fst s)) = Some p \<and>
     (\<forall>a \<in> set (def_alias d). map_get a (name2def (fst s)) = Some p)"

definition extends :: "'p bidoc \<times> 'p heap \<Rightarrow> 'p bidoc \<times> 'p heap \<Rightarrow> bool" where
  "extends s s' \<longleftrightarrow>
     (\<forall>k a. map_get k (name2def (fst s)) = Some a \<longrightarrow> map_get k (name2def (fst s')) = Some a) \<and>
     (\<forall>k a. map_get k (id2def (fst s)) = Some a \<longrightarrow> map_get k (id2def (fst s')) = Some a) \<and>
     (\<forall>a < ndefs (snd s). defs (snd s') a = defs (snd s) a) \<and>
     ndefs (snd s) \<le> ndefs (snd s') \<and>
     defIdGenerator (fst s') = defIdGenerator (fst s)"

text \<open>The names and aliases of all registered definitions, each definition taken once.\<close>

definition registered_names :: "'p bidoc \<times> 'p heap \<Rightarrow> string list" where
  "registered_names s = concat (map (names_of (snd s)) (remdups (map snd (id2def (fst s)))))"

section \<open>A small corpus\<close>

text \<open>
  One definition, \<open>Widget\<close> with id \<open>widget\<close>, at address 0, and three markers that
  refer to it: explicit, escaped, explicit.
\<close>

definition ex_def :: Definition where
  "ex_def = \<lparr> def_name = ''Widget'', def_alias = [], def_id = ''widget'', def_fragment = 0, def_refs = [] \<rparr>"

definition ex_fragment :: "string \<Rightarrow> unit Fragment" where
  "ex_fragment s = \<lparr> content = s, skip = False, position = () \<rparr>"

definition ex_frags :: "unit fheap" where
  "ex_frags = \<lparr> frags = (\<lambda>a. if a = 0 then ex_fragment ''[[#widget]]''
                            else if a = 1 then ex_fragment ''[[!Widget]]''
                            else ex_fragment ''[[#widget]]''),
               nfrags = 3 \<rparr>"

definition ex_heap :: "unit heap" where
  "ex_heap = \<lparr> defs = (\<lambda>a. ex_def), ndefs = 1, fragments = ex_frags \<rparr>"

definition ex_bidoc :: "unit bidoc" where
  "ex_bidoc = (BiDoc (\<lambda>n. n) None)\<lparr> name2def := [(''Widget'', 0)], id2def := [(''widget'', 0)] \<rparr>"

definition ex_refs :: "parsed_ref list" where
  "ex_refs = [\<lparr> p_def = 0, p_fragment = 0, p_type = explicit \<rparr>,
              \<lparr> p_def = 0, p_fragment = 1, p_type = escaped \<rparr>,
              \<lparr> p_def = 0, p_fragment = 2, p_type = explicit \<rparr>]"

definition ex_parser :: "unit biparser" where
  "ex_parser = \<lparr> parseDefinition = (\<lambda>text path pos fh. Inr (fh, [], [])),
                 parseDefinitionFromFragments = (\<lambda>fs path fh. Inr (fh, [], fs)),
                 parseExplicitOrEscapedReference = (\<lambda>fs path n2d i2d h. Inr (fragments h, ex_refs, fs)),
                 parseImplicitReference = (\<lambda>fs name fh. Inr (fh, [], fs)) \<rparr>"

definition ex_renderer :: "unit RefRenderer" where
  "ex_renderer h ref = ''<'' @ ref_name ref @ ''>''"

text \<open>The same parser, finding two plain occurrences of the name (fragments 3 and 4).\<close>

definition ex_implicit_parser :: "unit biparser" where
  "ex_implicit_parser = ex_parser\<lparr> parseImplicitReference := (\<lambda>fs name fh. Inr (fh, [3, 4], fs)) \<rparr>"

text \<open>An escaped and an explicit match for \<open>Widget\<close>, and the registry before any collection.\<close>

definition ex_escaped :: parsed_ref where
  "ex_escaped = \<lparr> p_def = 0, p_fragment = 1, p_type = escaped \<rparr>"

definition ex_explicit :: parsed_ref where
  "ex_explicit = \<lparr> p_def = 0, p_fragment = 2, p_type = explicit \<rparr>"

definition ex_empty_bidoc :: "unit bidoc" where
  "ex_empty_bidoc = BiDoc (\<lambda>n. n) None"

text \<open>The store after the three markers have been rendered.\<close>

definition ex_rendered :: "unit heap" where
  "ex_rendered = fst (renderExplicitOrEscapedReference ex_parser ex_bidoc ''doc1'' [0, 1, 2] ex_renderer ex_heap)"

text \<open>
  A run from the constructor: one document defines \<open>Widget\<close> (alias \<open>Gadget\<close>, no id)
  and \<open>Sprocket\<close> (id \<open>sp\<close>); a second document holds the three markers and one plain
  occurrence of \<open>Widget\<close>.
\<close>

definition ex_uslug :: "string \<Rightarrow> string" where
  "ex_uslug n = map (\<lambda>c. if c = CHR ''W'' then CHR ''w'' else if c = CHR ''S'' then CHR ''s'' else c) n"

definition ex_new_bidoc :: "unit bidoc" where
  "ex_new_bidoc = BiDoc ex_uslug None"

definition ex_heap0 :: "unit heap" where
  "ex_heap0 = \<lparr> defs = (\<lambda>a. ex_def), ndefs = 0,
                fragments = \<lparr> frags = (\<lambda>a. if a = 0 then ex_fragment ''[[#widget]]''
                            else if a = 1 then ex_fragment ''[[!Widget]]''
                            else if a = 2 then ex_fragment ''[[#widget]]''
                            else ex_fragment ''Widget''), nfrags = 5 \<rparr> \<rparr>"

definition ex_parsed_defs :: "Definition list" where
  "ex_parsed_defs =
     [\<lparr> def_name = ''Widget'', def_alias = [''Gadget''], def_id = [], def_fragment = 5, def_refs = [] \<rparr>,
      \<lparr> def_name = ''Sprocket'', def_alias = [], def_id = ''sp'', def_fragment = 6, def_refs = [] \<rparr>]"

definition ex_doc_parser :: "unit biparser" where
  "ex_doc_parser =
     \<lparr> parseDefinition = (\<lambda>text path pos fh. Inr (fh, ex_parsed_defs, [5, 6])),
       parseDefinitionFromFragments = (\<lambda>fs path fh. Inr (fh, [], fs)),
       parseExplicitOrEscapedReference = (\<lambda>fs path n2d i2d h. Inr (fragments h, ex_refs, [0, 1, 2, 3])),
       parseImplicitReference =
         (\<lambda>fs name fh. if name = ''Widget'' then Inr (fh, [3], fs) else Inr (fh, [], fs)) \<rparr>"

definition ex_def_renderer :: "unit DefRenderer" where
  "ex_def_renderer h d = ''<<'' @ def_name d @ ''>>''"

definition ex_collected :: "unit bidoc \<times> unit heap" where
  "ex_collected = fst (collectDefinition ex_doc_parser ''[[Widget|Gadget]] [[Sprocket:sp]]'' ''doc0'' ()
      (ex_new_bidoc, ex_heap0))"

definition ex_state :: "unit bidoc \<times> unit heap" where
  "ex_state = (fst ex_collected,
      fst (renderText ex_doc_parser (fst ex_collected) ''doc1'' ''[[#widget]][[!Widget]][[#widget]]Widget'' ()
        ex_def_renderer ex_renderer (snd ex_collected)))"

text \<open>A definition marker whose alias list repeats the name and repeats an alias.\<close>

definition ex_dup_parser :: "unit biparser" where
  "ex_dup_parser = ex_doc_parser\<lparr> parseDefinition := (\<lambda>text path pos fh. Inr (fh,
      [\<lparr> def_name = ''Widget'', def_alias = [''Widget'', ''Gadget'', ''Gadget''], def_id = ''w'',
         def_fragment = 5, def_refs = [] \<rparr>], [5])) \<rparr>"

text \<open>
  Two more definition markers for a third and a fourth document: one whose second alias
  is taken, one whose id is taken; and a parser that finds just one given definition.
\<close>

definition ex_alias_clash :: Definition where
  "ex_alias_clash = \<lparr> def_name = ''Cog'', def_alias = [''Axle'', ''Gadget'', ''Sprocket''], def_id = ''cog'',
                       def_fragment = 7, def_refs = [] \<rparr>"

definition ex_id_clash :: Definition where
  "ex_id_clash = \<lparr> def_name = ''Spring'', def_alias = [''Widget''], def_id = ''sp'',
                    def_fragment = 8, def_refs = [] \<rparr>"

definition ex_one_parser :: "Definition \<Rightarrow> unit biparser" where
  "ex_one_parser d =
     ex_doc_parser\<lparr> parseDefinition := (\<lambda>text path pos fh. Inr (fh, [d], [def_fragment d])) \<rparr>"

section \<open>Store lemmas\<close>

declare show_nat.simps [simp del]

lemma defs_set_content [simp]: "defs (set_content f s h) = defs h"
  by (simp add: set_content_def)

lemma ndefs_set_content [simp]: "ndefs (set_content f s h) = ndefs h"
  by (simp add: set_content_def)

lemma defs_push_ref:
  "defs (push_ref a ref h) a' =
     (if a' = a then (defs h a)\<lparr>def_refs := def_refs (defs h a) @ [ref]\<rparr> else defs h a')"
  by (simp add: push_ref_def)

lemma ndefs_push_ref [simp]: "ndefs (push_ref a ref h) = ndefs h"
  by (simp add: push_ref_def)

lemma lastIndex_snoc [simp]: "lastIndex (refs @ [r]) = ref_index r"
  by (simp add: lastIndex_def)

section \<open>Explicit and escaped references\<close>

lemma render_one_reference_refs:
  assumes "render_one_reference b path renderer r h = (h', Inr u)"
  shows "\<exists>ref. ref_type ref = p_type r \<and> ref_def ref = p_def r \<and>
           ref_index ref = (if p_type r = escaped then lastIndex (def_refs (defs h (p_def r)))
                            else lastIndex (def_refs (defs h (p_def r))) + 1) \<and>
           (\<forall>a. def_refs (defs h' a) =
                 (if a = p_def r then def_refs (defs h a) @ [ref] else def_refs (defs h a)))"
  using assms
  by (auto simp: render_one_reference_def Let_def defs_push_ref split: option.splits)

lemma render_references_refs:
  assumes "render_references b path renderer rs h = (h', Inr u)"
  shows "\<exists>new. def_refs (defs h' a) = def_refs (defs h a) @ new \<and>
           map ref_type new = map p_type (filter (\<lambda>r. p_def r = a) rs) \<and>
           map ref_index new =
             spec_indices (lastIndex (def_refs (defs h a))) (map p_type (filter (\<lambda>r. p_def r = a) rs))"
  using assms
proof (induction rs arbitrary: h)
  case Nil
  then show ?case by simp
next
  case (Cons r rs)
  from Cons.prems obtain h1 u1 where
    one: "render_one_reference b path renderer r h = (h1, Inr u1)" and
    rest: "render_references b path renderer rs h1 = (h', Inr u)"
    by (auto split: prod.splits sum.splits)
  from render_one_reference_refs[OF one] obtain ref where
    ref: "ref_type ref = p_type r"
      "ref_index ref = (if p_type r = escaped then lastIndex (def_refs (defs h (p_def r)))
                            else lastIndex (def_refs (defs h (p_def r))) + 1)"
      "\<And>a. def_refs (defs h1 a) =
                 (if a = p_def r then def_refs (defs h a) @ [ref] else def_refs (defs h a))"
    by blast
  from Cons.IH[OF rest] obtain new where
    new: "def_refs (defs h' a) = def_refs (defs h1 a) @ new"
      "map ref_type new = map p_type (filter (\<lambda>r. p_def r = a) rs)"
      "map ref_index new =
             spec_indices (lastIndex (def_refs (defs h1 a))) (map p_type (filter (\<lambda>r. p_def r = a) rs))"
    by blast
  show ?case
  proof (cases "p_def r = a")
    case True
    have "def_refs (defs h' a) = def_refs (defs h a) @ (ref # new)"
      using new(1) ref(3)[of a] True by simp
    moreover have "map ref_type (ref # new) = map p_type (filter (\<lambda>r. p_def r = a) (r # rs))"
      using new(2) ref(1) True by simp
    moreover have "map ref_index (ref # new) =
        spec_indices (lastIndex (def_refs (defs h a))) (map p_type (filter (\<lambda>r. p_def r = a) (r # rs)))"
      using new(3) ref(2) ref(3)[of a] True by (simp add: Let_def)
    ultimately show ?thesis by blast
  next
    case False
    then show ?thesis using new ref(3)[of a] by auto
  qed
qed

lemma ex_run:
  "snd (renderExplicitOrEscapedReference ex_parser ex_bidoc ''doc1'' [0, 1, 2] ex_renderer ex_heap)
     = Inr [0, 1, 2]"
  by (simp add: renderExplicitOrEscapedReference_def ex_parser_def ex_refs_def ex_heap_def ex_frags_def
      ex_bidoc_def BiDoc_def render_one_reference_def marker_id_def get_content_def slice_def
      ex_fragment_def map_get_def push_ref_def set_content_def Let_def)

text \<open>
  C1. When \<^verbatim>\<open>renderExplicitOrEscapedReference\<close> returns, every definition \<open>a\<close> has
  got, appended to its \<open>refs\<close> in the order of the matches, one reference for each match
  that targets it, explicit or escaped alike. Their indices are those of \<open>spec_indices\<close>
  from the last index recorded before: an explicit match receives the index of the last
  recorded reference plus one, an escaped match the index of the last recorded reference
  unchanged, so the match after an escaped one receives the previous explicit index plus
  one and no value is skipped.
\<close>

theorem renderExplicitOrEscapedReference_index:
  assumes "parseExplicitOrEscapedReference P fs path (name2def b) (id2def b) h = Inr (fh, rs, fs')"
    and "snd (renderExplicitOrEscapedReference P b path fs renderer h) = Inr out"
  shows "\<exists>new. def_refs (defs (fst (renderExplicitOrEscapedReference P b path fs renderer h)) a)
                 = def_refs (defs h a) @ new \<and>
           map ref_type new = map p_type (filter (\<lambda>r. p_def r = a) rs) \<and>
           map ref_index new =
             spec_indices (lastIndex (def_refs (defs h a))) (map p_type (filter (\<lambda>r. p_def r = a) rs))"
proof -
  obtain h' where run: "render_references b path renderer rs (h\<lparr>fragments := fh\<rparr>) = (h', Inr ())"
    and fin: "fst (renderExplicitOrEscapedReference P b path fs renderer h) = h'"
    using assms by (auto simp: renderExplicitOrEscapedReference_def split: prod.splits sum.splits)
  from render_references_refs[OF run, of a] show ?thesis
    unfolding fin by simp
qed

theorem renderExplicitOrEscapedReference_index_witness:
  "map ref_index (def_refs (defs (fst (renderExplicitOrEscapedReference ex_parser ex_bidoc ''doc1''
      [0, 1, 2] ex_renderer ex_heap)) 0)) = [0, 0, 1]"
proof -
  have parse: "parseExplicitOrEscapedReference ex_parser [0, 1, 2] ''doc1'' (name2def ex_bidoc)
      (id2def ex_bidoc) ex_heap = Inr (fragments ex_heap, ex_refs, [0, 1, 2])"
    by (simp add: ex_parser_def)
  from renderExplicitOrEscapedReference_index[OF parse ex_run, of 0]
  show ?thesis
    by (auto simp: ex_refs_def ex_heap_def ex_def_def lastIndex_def Let_def)
qed

lemma render_references_append:
  "render_references b path renderer (pre @ rs) h =
     (case render_references b path renderer pre h of
        (h', Inl e) \<Rightarrow> (h', Inl e)
      | (h', Inr u) \<Rightarrow> render_references b path renderer rs h')"
  by (induction pre arbitrary: h) (auto split: prod.splits sum.splits)

lemma render_one_reference_dangling:
  assumes "p_type r = explicit" and "\<not> map_has (marker_id h r) (id2def b)"
  shows "render_one_reference b path renderer r h = (h, Inl TypeError)"
  using assms by (simp add: render_one_reference_def map_has_def map_get_def Let_def)

text \<open>
  C8. Let the parser return the matches \<open>pre @ r # post\<close>, where \<open>r\<close> is explicit
  and, when \<open>r\<close> is reached, the content of its fragment without its first three and last
  two characters is not a key of \<open>id2def\<close>. Then the operation throws. If the matches
  before \<open>r\<close> were rendered, the error is the \<open>TypeError\<close> of reading \<^verbatim>\<open>name\<close> from
  \<^verbatim>\<open>undefined\<close>, and the store is as those matches left it: nothing is recorded or
  rendered for \<open>r\<close>.
\<close>

theorem dangling_explicit_reference_throws:
  assumes "parseExplicitOrEscapedReference P fs path (name2def b) (id2def b) h
             = Inr (fh, pre @ r # post, fs')"
    and "p_type r = explicit"
    and "\<not> map_has (marker_id (fst (render_references b path renderer pre (h\<lparr>fragments := fh\<rparr>))) r)
             (id2def b)"
  shows "(\<exists>e. snd (renderExplicitOrEscapedReference P b path fs renderer h) = Inl e) \<and>
    (snd (render_references b path renderer pre (h\<lparr>fragments := fh\<rparr>)) = Inr () \<longrightarrow>
       renderExplicitOrEscapedReference P b path fs renderer h
         = (fst (render_references b path renderer pre (h\<lparr>fragments := fh\<rparr>)), Inl TypeError))"
proof -
  obtain h1 res1 where pre: "render_references b path renderer pre (h\<lparr>fragments := fh\<rparr>) = (h1, res1)"
    by (cases "render_references b path renderer pre (h\<lparr>fragments := fh\<rparr>)")
  have one: "render_one_reference b path renderer r h1 = (h1, Inl TypeError)"
    using render_one_reference_dangling[OF assms(2), of h1 b path renderer] assms(3) pre by simp
  show ?thesis
  proof (cases res1)
    case (Inl e)
    then show ?thesis
      using assms(1) pre
      by (simp add: renderExplicitOrEscapedReference_def render_references_append)
  next
    case (Inr u)
    then show ?thesis
      using assms(1) pre one
      by (simp add: renderExplicitOrEscapedReference_def render_references_append)
  qed
qed

theorem dangling_explicit_reference_throws_witness:
  "renderExplicitOrEscapedReference ex_parser ex_empty_bidoc ''doc1'' [0, 1, 2] ex_renderer ex_heap
     = (ex_heap, Inl TypeError)"
proof -
  have parse: "parseExplicitOrEscapedReference ex_parser [0, 1, 2] ''doc1'' (name2def ex_empty_bidoc)
      (id2def ex_empty_bidoc) ex_heap = Inr (fragments ex_heap, [] @ hd ex_refs # tl ex_refs, [0, 1, 2])"
    by (simp add: ex_parser_def ex_refs_def)
  have ty: "p_type (hd ex_refs) = explicit"
    by (simp add: ex_refs_def)
  have missing: "\<not> map_has (marker_id (fst (render_references ex_empty_bidoc ''doc1'' ex_renderer []
       (ex_heap\<lparr>fragments := fragments ex_heap\<rparr>))) (hd ex_refs)) (id2def ex_empty_bidoc)"
    by (simp add: map_has_def ex_empty_bidoc_def BiDoc_def)
  from dangling_explicit_reference_throws[OF parse ty missing]
  show ?thesis by simp
qed

section \<open>Implicit references\<close>

lemma render_one_implicit_refs:
  "def_refs (defs (render_one_implicit path def renderer r h) a) =
     (if a = def then def_refs (defs h def) @
        [\<lparr> ref_def = def, ref_path = path, ref_fragment = r, ref_type = implicit,
           ref_index = lastIndex (def_refs (defs h def)) + 1, ref_name = get_content h r \<rparr>]
      else def_refs (defs h a))"
  by (simp add: render_one_implicit_def Let_def defs_push_ref)

lemma fold_render_one_implicit_refs:
  "\<exists>new. def_refs (defs (fold (render_one_implicit path def renderer) rs h) def)
            = def_refs (defs h def) @ new \<and>
         map ref_index new = map (\<lambda>k. lastIndex (def_refs (defs h def)) + 1 + int k) [0..<length rs] \<and>
         map ref_fragment new = rs \<and>
         (\<forall>x \<in> set new. ref_type x = implicit \<and> ref_def x = def \<and> ref_path x = path)"
proof (induction rs arbitrary: h)
  case Nil
  then show ?case by simp
next
  case (Cons r rs)
  let ?h1 = "render_one_implicit path def renderer r h"
  let ?ref = "\<lparr> ref_def = def, ref_path = path, ref_fragment = r, ref_type = implicit,
           ref_index = lastIndex (def_refs (defs h def)) + 1, ref_name = get_content h r \<rparr>"
  have one: "def_refs (defs ?h1 def) = def_refs (defs h def) @ [?ref]"
    by (simp add: render_one_implicit_refs)
  from Cons.IH[of ?h1] obtain new where
    new: "def_refs (defs (fold (render_one_implicit path def renderer) rs ?h1) def)
            = def_refs (defs ?h1 def) @ new"
      "map ref_index new = map (\<lambda>k. lastIndex (def_refs (defs ?h1 def)) + 1 + int k) [0..<length rs]"
      "map ref_fragment new = rs"
      "\<forall>x \<in> set new. ref_type x = implicit \<and> ref_def x = def \<and> ref_path x = path"
    by blast
  have f1: "def_refs (defs (fold (render_one_implicit path def renderer) (r # rs) h) def)
            = def_refs (defs h def) @ (?ref # new)"
    using new(1) one by simp
  have f2: "map ref_index (?ref # new)
        = map (\<lambda>k. lastIndex (def_refs (defs h def)) + 1 + int k) [0..<length (r # rs)]"
    using new(2) unfolding one by (simp add: map_upt_Suc del: upt_Suc)
  have f3: "map ref_fragment (?ref # new) = r # rs"
    using new(3) by simp
  have f4: "\<forall>x \<in> set (?ref # new). ref_type x = implicit \<and> ref_def x = def \<and> ref_path x = path"
    using new(4) by simp
  show ?case
    by (rule exI[of _ "?ref # new"]) (intro conjI f1 f2 f3 f4)
qed

text \<open>
  C4. \<^verbatim>\<open>renderImplicitReference\<close> does not throw once the parser has returned, and it
  appends one implicit reference per match to the definition's \<open>refs\<close>, in the order of
  the matches; match number \<open>k\<close> (from 0) receives the index of the last reference recorded
  before the call plus one plus \<open>k\<close>, that is, each match receives the index of the last
  recorded reference plus one. When \<open>refs\<close> is empty the matches receive 0, 1, ...
\<close>

theorem renderImplicitReference_index:
  assumes "parseImplicitReference P fs name (fragments h) = Inr (fh, rs, fs')"
  shows "snd (renderImplicitReference P path fs def name renderer h) = Inr fs' \<and>
    (\<exists>new. def_refs (defs (fst (renderImplicitReference P path fs def name renderer h)) def)
              = def_refs (defs h def) @ new \<and>
       map ref_fragment new = rs \<and>
       (\<forall>x \<in> set new. ref_type x = implicit) \<and>
       map ref_index new = map (\<lambda>k. lastIndex (def_refs (defs h def)) + 1 + int k) [0..<length rs] \<and>
       (def_refs (defs h def) = [] \<longrightarrow> map ref_index new = map int [0..<length rs]))"
proof -
  have res: "renderImplicitReference P path fs def name renderer h =
      (fold (render_one_implicit path def renderer) rs (h\<lparr>fragments := fh\<rparr>), Inr fs')"
    using assms by (simp add: renderImplicitReference_def)
  from fold_render_one_implicit_refs[of path "def" renderer rs "h\<lparr>fragments := fh\<rparr>"]
  obtain new where
    new: "def_refs (defs (fold (render_one_implicit path def renderer) rs (h\<lparr>fragments := fh\<rparr>)) def)
            = def_refs (defs h def) @ new"
      "map ref_index new = map (\<lambda>k. lastIndex (def_refs (defs h def)) + 1 + int k) [0..<length rs]"
      "map ref_fragment new = rs"
      "\<forall>x \<in> set new. ref_type x = implicit"
    by auto
  have "def_refs (defs h def) = [] \<longrightarrow> map ref_index new = map int [0..<length rs]"
    using new(2) by (simp add: lastIndex_def)
  with new show ?thesis unfolding res by auto
qed

theorem renderImplicitReference_index_witness:
  "map ref_index (def_refs (defs (fst (renderImplicitReference ex_implicit_parser ''doc1''
      [3, 4] 0 ''Widget'' ex_renderer ex_heap)) 0)) = [0, 1]"
proof -
  have parse: "parseImplicitReference ex_implicit_parser [3, 4] ''Widget'' (fragments ex_heap)
      = Inr (fragments ex_heap, [3, 4], [3, 4])"
    by (simp add: ex_implicit_parser_def ex_parser_def)
  have empty: "def_refs (defs ex_heap 0) = []"
    by (simp add: ex_heap_def ex_def_def)
  from renderImplicitReference_index[OF parse, of "''doc1''" 0 ex_renderer] empty
  show ?thesis
    by auto
qed

section \<open>The default generators\<close>

lemma number_to_string_0 [simp]: "number_to_string 0 = ''0''"
  by (simp add: number_to_string_def show_nat.simps)

lemma number_to_string_1 [simp]: "number_to_string 1 = ''1''"
  by (simp add: number_to_string_def show_nat.simps)

lemma number_to_string_2 [simp]: "number_to_string 2 = ''2''"
  by (simp add: number_to_string_def show_nat.simps)

lemma default_refIdGenerator:
  "refIdGenerator (BiDoc uslug None) h ref =
     def_id (defs h (ref_def ref)) @ ''-ref-'' @ number_to_string (ref_index ref + 1)"
  by (simp add: BiDoc_def)

text \<open>
  C10. An escaped match whose target has no recorded reference does not throw and is
  recorded with index \<open>-1\<close>; the default \<open>refIdGenerator\<close> gives it the anchor of the
  definition's id followed by \<open>-ref-0\<close>. The next match for the same definition that
  advances the ordinal, a non-escaped marker or an implicit occurrence, receives index 0.
\<close>

theorem escaped_first_reference:
  assumes "p_type r = escaped" and "def_refs (defs h (p_def r)) = []"
  shows "snd (render_one_reference b path renderer r h) = Inr () \<and>
    (\<exists>ref. def_refs (defs (fst (render_one_reference b path renderer r h)) (p_def r)) = [ref] \<and>
       ref_type ref = escaped \<and> ref_index ref = - 1 \<and>
       refIdGenerator (BiDoc uslug None) (fst (render_one_reference b path renderer r h)) ref
         = def_id (defs h (p_def r)) @ ''-ref-0'') \<and>
    (\<forall>r2 path2 renderer2.
       p_def r2 = p_def r \<and> p_type r2 \<noteq> escaped \<and>
       snd (render_one_reference b path2 renderer2 r2 (fst (render_one_reference b path renderer r h))) = Inr ()
       \<longrightarrow> map ref_index (def_refs (defs (fst (render_one_reference b path2 renderer2 r2
               (fst (render_one_reference b path renderer r h)))) (p_def r))) = [- 1, 0]) \<and>
    (\<forall>f path2 renderer2.
       map ref_index (def_refs (defs (render_one_implicit path2 (p_def r) renderer2 f
               (fst (render_one_reference b path renderer r h))) (p_def r))) = [- 1, 0])"
proof -
  let ?h' = "fst (render_one_reference b path renderer r h)"
  let ?ref = "\<lparr> ref_def = p_def r, ref_path = path, ref_fragment = p_fragment r,
                ref_type = p_type r, ref_index = - 1, ref_name = marker_id h r \<rparr>"
  have ok: "snd (render_one_reference b path renderer r h) = Inr ()"
    using assms by (simp add: render_one_reference_def Let_def)
  have refs: "def_refs (defs ?h' (p_def r)) = [?ref]"
    using assms by (simp add: render_one_reference_def Let_def defs_push_ref lastIndex_def)
  have id: "def_id (defs ?h' (p_def r)) = def_id (defs h (p_def r))"
    using assms by (simp add: render_one_reference_def Let_def defs_push_ref)
  have c2: "\<exists>ref. def_refs (defs ?h' (p_def r)) = [ref] \<and>
       ref_type ref = escaped \<and> ref_index ref = - 1 \<and>
       refIdGenerator (BiDoc uslug None) ?h' ref = def_id (defs h (p_def r)) @ ''-ref-0''"
    using refs id assms(1) by (simp add: default_refIdGenerator)
  have c3: "\<forall>r2 path2 renderer2.
       p_def r2 = p_def r \<and> p_type r2 \<noteq> escaped \<and>
       snd (render_one_reference b path2 renderer2 r2 ?h') = Inr ()
       \<longrightarrow> map ref_index (def_refs (defs (fst (render_one_reference b path2 renderer2 r2 ?h')) (p_def r)))
            = [- 1, 0]"
  proof (intro allI impI)
    fix r2 path2 renderer2
    assume a: "p_def r2 = p_def r \<and> p_type r2 \<noteq> escaped \<and>
       snd (render_one_reference b path2 renderer2 r2 ?h') = Inr ()"
    then have "render_one_reference b path2 renderer2 r2 ?h'
        = (fst (render_one_reference b path2 renderer2 r2 ?h'), Inr ())"
      by (metis prod.collapse)
    from render_one_reference_refs[OF this] a refs
    show "map ref_index (def_refs (defs (fst (render_one_reference b path2 renderer2 r2 ?h')) (p_def r)))
            = [- 1, 0]"
      by (auto simp: lastIndex_def)
  qed
  have c4: "\<forall>f path2 renderer2.
       map ref_index (def_refs (defs (render_one_implicit path2 (p_def r) renderer2 f ?h') (p_def r)))
         = [- 1, 0]"
    using refs by (simp add: render_one_implicit_refs lastIndex_def)
  from ok c2 c3 c4 show ?thesis by blast
qed

lemma ex_escaped_empty: "p_type ex_escaped = escaped \<and> def_refs (defs ex_heap (p_def ex_escaped)) = []"
  by (simp add: ex_escaped_def ex_heap_def ex_def_def)

lemma ex_explicit_after_escaped:
  "p_def ex_explicit = p_def ex_escaped \<and> p_type ex_explicit \<noteq> escaped \<and>
   snd (render_one_reference ex_bidoc ''doc1'' ex_renderer ex_explicit
     (fst (render_one_reference ex_bidoc ''doc1'' ex_renderer ex_escaped ex_heap))) = Inr ()"
  by (simp add: ex_explicit_def ex_escaped_def render_one_reference_def ex_heap_def ex_frags_def
      ex_bidoc_def BiDoc_def marker_id_def get_content_def slice_def
      ex_fragment_def map_get_def push_ref_def set_content_def Let_def)

theorem escaped_first_reference_witness:
  "map ref_index (def_refs (defs (fst (render_one_reference ex_bidoc ''doc1'' ex_renderer ex_escaped ex_heap)) 0))
     = [- 1] \<and>
   map ref_index (def_refs (defs (fst (render_one_reference ex_bidoc ''doc1'' ex_renderer ex_explicit
     (fst (render_one_reference ex_bidoc ''doc1'' ex_renderer ex_escaped ex_heap)))) 0)) = [- 1, 0]"
proof -
  have p: "p_def ex_escaped = 0" by (simp add: ex_escaped_def)
  from escaped_first_reference[of ex_escaped ex_heap ex_bidoc "''doc1''" ex_renderer "\<lambda>n. n"]
    ex_escaped_empty ex_explicit_after_escaped
  show ?thesis
    unfolding p by auto
qed

text \<open>
  C9. Without overrides (no options, or options with neither field), the
  \<open>refIdGenerator\<close> of the constructed engine maps a reference to the id of its
  definition, then \<open>-ref-\<close>, then its index plus one in decimal: index 0 gives
  \<open>-ref-1\<close> and index 1 gives \<open>-ref-2\<close>. Its \<open>defIdGenerator\<close> is \<open>uslug\<close> applied to
  the name, and is what gives an id to a definition that has none.
\<close>

theorem default_generators:
  "refIdGenerator (BiDoc uslug None) h ref =
     def_id (defs h (ref_def ref)) @ ''-ref-'' @ number_to_string (ref_index ref + 1) \<and>
   refIdGenerator (BiDoc uslug None) h (ref\<lparr>ref_index := 0\<rparr>) = def_id (defs h (ref_def ref)) @ ''-ref-1'' \<and>
   refIdGenerator (BiDoc uslug None) h (ref\<lparr>ref_index := 1\<rparr>) = def_id (defs h (ref_def ref)) @ ''-ref-2'' \<and>
   defIdGenerator (BiDoc uslug None) name = uslug name \<and>
   assign_id (BiDoc uslug None) (d\<lparr>def_id := []\<rparr>) = d\<lparr>def_id := uslug (def_name d)\<rparr> \<and>
   BiDoc uslug (Some \<lparr> opt_defIdGenerator = None, opt_refIdGenerator = None \<rparr>) = BiDoc uslug None"
  by (simp add: BiDoc_def assign_id_def)

section \<open>Reverse references\<close>

lemma map_has_keys: "map_has k m = (k \<in> fst ` set m)"
  by (simp add: map_has_def map_of_eq_None_iff)

lemma map_get_None: "(map_get k m = None) = (k \<notin> fst ` set m)"
  by (simp add: map_get_def map_of_eq_None_iff)

text \<open>
  C6. \<^verbatim>\<open>getReverseRefs\<close> throws the not-found error exactly when the id is not a key of
  \<open>id2def\<close> (the name is not a key of \<open>name2def\<close>), and it throws nothing else.
  Otherwise it returns, for the references recorded in the definition's \<open>refs\<close>, in that
  order, the path, \<open>#\<close> and \<open>refIdGenerator\<close> of the reference.
\<close>

theorem getReverseRefs_result:
  "(getReverseRefs (ById i) b h = Inl (not_found (ById i))) = (i \<notin> fst ` set (id2def b)) \<and>
   (getReverseRefs (ByName n) b h = Inl (not_found (ByName n))) = (n \<notin> fst ` set (name2def b)) \<and>
   (\<forall>e. getReverseRefs options b h = Inl e \<longrightarrow> e = not_found options) \<and>
   (\<forall>a. map_get i (id2def b) = Some a \<longrightarrow> getReverseRefs (ById i) b h = Inr (links b h a)) \<and>
   (\<forall>a. map_get n (name2def b) = Some a \<longrightarrow> getReverseRefs (ByName n) b h = Inr (links b h a))"
proof -
  have c1: "(getReverseRefs (ById i) b h = Inl (not_found (ById i))) = (i \<notin> fst ` set (id2def b))"
    by (simp add: getReverseRefs_def not_found_def map_get_None[symmetric] split: option.splits)
  have c2: "(getReverseRefs (ByName n) b h = Inl (not_found (ByName n))) = (n \<notin> fst ` set (name2def b))"
    by (simp add: getReverseRefs_def not_found_def map_get_None[symmetric] split: option.splits)
  have c3: "\<forall>e. getReverseRefs options b h = Inl e \<longrightarrow> e = not_found options"
    by (auto simp: getReverseRefs_def not_found_def split: option.splits)
  have c4: "\<forall>a. map_get i (id2def b) = Some a \<longrightarrow> getReverseRefs (ById i) b h = Inr (links b h a)"
    by (simp add: getReverseRefs_def links_def)
  have c5: "\<forall>a. map_get n (name2def b) = Some a \<longrightarrow> getReverseRefs (ByName n) b h = Inr (links b h a)"
    by (simp add: getReverseRefs_def links_def)
  from c1 c2 c3 c4 c5 show ?thesis by blast
qed

lemma ex_rendered_links:
  "links ex_bidoc ex_rendered 0 = [''doc1#widget-ref-1'', ''doc1#widget-ref-1'', ''doc1#widget-ref-2'']"
  by code_simp

theorem getReverseRefs_result_witness:
  "getReverseRefs (ById ''widget'') ex_bidoc ex_rendered
     = Inr [''doc1#widget-ref-1'', ''doc1#widget-ref-1'', ''doc1#widget-ref-2''] \<and>
   getReverseRefs (ByName ''Widget'') ex_bidoc ex_rendered
     = Inr [''doc1#widget-ref-1'', ''doc1#widget-ref-1'', ''doc1#widget-ref-2''] \<and>
   getReverseRefs (ByName ''widget'') ex_bidoc ex_rendered = Inl (not_found (ByName ''widget'')) \<and>
   getReverseRefs (ById ''Widget'') ex_bidoc ex_rendered = Inl (not_found (ById ''Widget''))"
proof -
  have i: "map_get ''widget'' (id2def ex_bidoc) = Some 0"
    and n: "map_get ''Widget'' (name2def ex_bidoc) = Some 0"
    and i': "''Widget'' \<notin> fst ` set (id2def ex_bidoc)"
    and n': "''widget'' \<notin> fst ` set (name2def ex_bidoc)"
    by (simp_all add: map_get_def ex_bidoc_def)
  note r1 = getReverseRefs_result[of "''widget''" ex_bidoc ex_rendered "''Widget''"]
  note r2 = getReverseRefs_result[of "''Widget''" ex_bidoc ex_rendered "''widget''"]
  have "getReverseRefs (ById ''widget'') ex_bidoc ex_rendered = Inr (links ex_bidoc ex_rendered 0)"
    using r1 i by blast
  moreover have "getReverseRefs (ByName ''Widget'') ex_bidoc ex_rendered = Inr (links ex_bidoc ex_rendered 0)"
    using r1 n by blast
  moreover have "getReverseRefs (ByName ''widget'') ex_bidoc ex_rendered = Inl (not_found (ByName ''widget''))"
    using r2 n' by blast
  moreover have "getReverseRefs (ById ''Widget'') ex_bidoc ex_rendered = Inl (not_found (ById ''Widget''))"
    using r2 i' by blast
  ultimately show ?thesis
    by (simp only: ex_rendered_links simp_thms)
qed

section \<open>Rendering leaves names, aliases and ids alone\<close>

lemma frame_refl [simp]: "frame h h"
  by (simp add: frame_def)

lemma frame_trans: "frame h h1 \<Longrightarrow> frame h1 h2 \<Longrightarrow> frame h h2"
  by (simp add: frame_def)

lemma frame_fragments [simp]: "frame h (h\<lparr>fragments := fh\<rparr>)"
  by (simp add: frame_def)

lemma frame_set_content [simp]: "frame h (set_content f s h)"
  by (simp add: frame_def)

lemma frame_push_ref [simp]: "frame h (push_ref a ref h)"
  by (simp add: frame_def defs_push_ref)

lemma frame_render_one_reference: "frame h (fst (render_one_reference b path renderer r h))"
  by (auto simp: render_one_reference_def Let_def split: option.splits
      intro: frame_trans[OF frame_push_ref frame_set_content])

lemma frame_render_references: "frame h (fst (render_references b path renderer rs h))"
proof (induction rs arbitrary: h)
  case Nil
  then show ?case by simp
next
  case (Cons r rs)
  obtain h1 res where one: "render_one_reference b path renderer r h = (h1, res)"
    by (cases "render_one_reference b path renderer r h")
  then have f1: "frame h h1"
    using frame_render_one_reference[of h b path renderer r] by simp
  show ?case
  proof (cases res)
    case (Inl e)
    then show ?thesis using one f1 by simp
  next
    case (Inr u)
    then show ?thesis
      using one frame_trans[OF f1 Cons.IH[of h1]] by simp
  qed
qed

lemma frame_renderExplicitOrEscapedReference:
  "frame h (fst (renderExplicitOrEscapedReference P b path fs renderer h))"
proof (cases "parseExplicitOrEscapedReference P fs path (name2def b) (id2def b) h")
  case (Inl e)
  then show ?thesis by (simp add: renderExplicitOrEscapedReference_def)
next
  case (Inr x)
  then obtain fh rs fs' where x: "x = (fh, rs, fs')" by (cases x) auto
  have "frame h (fst (render_references b path renderer rs (h\<lparr>fragments := fh\<rparr>)))"
    by (rule frame_trans[OF frame_fragments frame_render_references])
  then show ?thesis
    using Inr x by (auto simp: renderExplicitOrEscapedReference_def split: prod.splits sum.splits)
qed

lemma frame_render_one_implicit: "frame h (render_one_implicit path def renderer r h)"
  by (auto simp: render_one_implicit_def Let_def intro: frame_trans[OF frame_push_ref frame_set_content])

lemma frame_fold_implicit: "frame h (fold (render_one_implicit path def renderer) rs h)"
proof (induction rs arbitrary: h)
  case Nil
  then show ?case by simp
next
  case (Cons r rs)
  show ?case
    using frame_trans[OF frame_render_one_implicit Cons.IH] by simp
qed

lemma frame_renderImplicitReference:
  "frame h (fst (renderImplicitReference P path fs def name renderer h))"
  by (auto simp: renderImplicitReference_def split: sum.splits
      intro: frame_trans[OF frame_fragments frame_fold_implicit])

lemma frame_render_implicit_all: "frame h (fst (render_implicit_all P path renderer m fs h))"
proof (induction m arbitrary: fs h)
  case Nil
  then show ?case by simp
next
  case (Cons e m)
  obtain key d where e: "e = (key, d)" by (cases e)
  obtain h1 res where one: "renderImplicitReference P path fs d key renderer h = (h1, res)"
    by (cases "renderImplicitReference P path fs d key renderer h")
  then have f1: "frame h h1"
    using frame_renderImplicitReference[of h P path fs d key renderer] by simp
  show ?case
  proof (cases res)
    case (Inl x)
    then show ?thesis using e one f1 by simp
  next
    case (Inr fs')
    then show ?thesis
      using e one frame_trans[OF f1 Cons.IH[where h=h1 and fs=fs']] by simp
  qed
qed

lemma frame_fold_definition: "frame h (fold (render_one_definition b renderer) ds h)"
proof (induction ds arbitrary: h)
  case Nil
  then show ?case by simp
next
  case (Cons d ds)
  have "frame h (render_one_definition b renderer d h)"
    by (simp add: render_one_definition_def Let_def)
  from frame_trans[OF this Cons.IH] show ?case by simp
qed

lemma frame_renderDefinition: "frame h (fst (renderDefinition P b path fs renderer h))"
  by (auto simp: renderDefinition_def split: sum.splits
      intro: frame_trans[OF frame_fragments frame_fold_definition])

lemma frame_new_fragment: "frame h (snd (new_fragment f h))"
  by (simp add: new_fragment_def Let_def frame_def)

lemma frame_renderText: "frame h (fst (renderText P b path s pos defRenderer refRenderer h))"
proof -
  obtain a h0 where nf: "new_fragment \<lparr> content = s, skip = False, position = pos \<rparr> h = (a, h0)"
    by (cases "new_fragment \<lparr> content = s, skip = False, position = pos \<rparr> h")
  then have f0: "frame h h0"
    using frame_new_fragment[of h "\<lparr> content = s, skip = False, position = pos \<rparr>"] by simp
  obtain h1 r1 where s1: "renderDefinition P b path [a] defRenderer h0 = (h1, r1)"
    by (cases "renderDefinition P b path [a] defRenderer h0")
  then have f1: "frame h h1"
    using frame_trans[OF f0 frame_renderDefinition[of h0 P b path "[a]" defRenderer]] by simp
  show ?thesis
  proof (cases r1)
    case (Inl e)
    then show ?thesis using nf s1 f1 by (simp add: renderText_def)
  next
    case (Inr fs1)
    obtain h2 r2 where s2: "renderExplicitOrEscapedReference P b path fs1 refRenderer h1 = (h2, r2)"
      by (cases "renderExplicitOrEscapedReference P b path fs1 refRenderer h1")
    then have f2: "frame h h2"
      using frame_trans[OF f1 frame_renderExplicitOrEscapedReference[of h1 P b path fs1 refRenderer]]
      by simp
    show ?thesis
    proof (cases r2)
      case (Inl e)
      then show ?thesis using nf s1 Inr s2 f2 by (simp add: renderText_def)
    next
      case (Inr fs2)
      obtain h3 r3 where s3: "render_implicit_all P path refRenderer (name2def b) fs2 h2 = (h3, r3)"
        by (cases "render_implicit_all P path refRenderer (name2def b) fs2 h2")
      then have f3: "frame h h3"
        using frame_trans[OF f2 frame_render_implicit_all[of h2 P path refRenderer "name2def b" fs2]]
        by simp
      show ?thesis
        using nf s1 \<open>r1 = Inr fs1\<close> s2 Inr s3 f3
        by (cases r3) (simp_all add: renderText_def)
    qed
  qed
qed

lemma reg_inv_frame: "reg_inv b h \<Longrightarrow> frame h h' \<Longrightarrow> reg_inv b h'"
  by (simp add: reg_inv_def frame_def names_of_def)

section \<open>Collection keeps the registry invariant\<close>

lemma map_get_map_set: "map_get k (map_set k' v m) = (if k = k' then Some v else map_get k m)"
  by (induction m) (auto simp: map_get_def)

lemma in_map_set: "(k', v') \<in> set (map_set k v m) \<Longrightarrow> v' = v \<or> (\<exists>k''. (k'', v') \<in> set m)"
  by (induction m) (auto split: if_splits)

lemma vals_map_set: "snd ` set (map_set k v m) \<subseteq> insert v (snd ` set m)"
  using in_map_set[of _ _ k v m] by force

lemma map_get_fold_map_set:
  "map_get k (fold (\<lambda>a m. map_set a p m) as m) = (if k \<in> set as then Some p else map_get k m)"
  by (induction as arbitrary: m) (auto simp: map_get_map_set)

lemma vals_fold_map_set: "snd ` set (fold (\<lambda>a m. map_set a p m) as m) \<subseteq> insert p (snd ` set m)"
proof (induction as arbitrary: m)
  case Nil
  then show ?case by auto
next
  case (Cons a as)
  have "snd ` set (fold (\<lambda>a m. map_set a p m) as (map_set a p m)) \<subseteq> insert p (snd ` set (map_set a p m))"
    by (rule Cons.IH)
  also have "\<dots> \<subseteq> insert p (snd ` set m)"
    using vals_map_set[of a p m] by auto
  finally show ?case by simp
qed

lemma map_has_get: "map_has k m = (map_get k m \<noteq> None)"
  by (simp add: map_has_def map_get_def)

lemma find_None_iff_has: "(find (\<lambda>a. map_has a m) as = None) = (\<forall>a \<in> set as. \<not> map_has a m)"
  by (auto simp: find_None_iff)

lemma collect_one_collides:
  "collides (fst s) d0 \<Longrightarrow> fst (collect_one path d0 s) = s \<and> (\<exists>e. snd (collect_one path d0 s) = Inl e)"
  by (auto simp: collides_def collect_one_def Let_def find_None_iff split: option.splits)

lemma collect_one_free:
  "\<not> collides (fst s) d0 \<Longrightarrow>
     collect_one path d0 s = (register (assign_id (fst s) d0) s, Inr (ndefs (snd s)))"
  by (auto simp: collides_def collect_one_def register_def Let_def find_None_iff split: option.splits)

lemma registered_register:
  "registered (fst (register d s)) \<subseteq> insert (ndefs (snd s)) (registered (fst s))"
proof -
  let ?p = "ndefs (snd s)"
  have "snd ` set (fold (\<lambda>a m. map_set a ?p m) (def_alias d) (map_set (def_name d) ?p (name2def (fst s))))
      \<subseteq> insert ?p (snd ` set (name2def (fst s)))"
    using vals_fold_map_set[of ?p "def_alias d" "map_set (def_name d) ?p (name2def (fst s))"]
      vals_map_set[of "def_name d" ?p "name2def (fst s)"] by blast
  moreover have "snd ` set (map_set (def_id d) ?p (id2def (fst s))) \<subseteq> insert ?p (snd ` set (id2def (fst s)))"
    by (rule vals_map_set)
  ultimately show ?thesis
    by (auto simp: registered_def register_def Let_def)
qed

lemma reg_inv_register:
  assumes inv: "reg_inv (fst s) (snd s)"
    and free: "\<not> map_has (def_name d) (name2def (fst s))"
      "\<not> map_has (def_id d) (id2def (fst s))"
      "\<forall>a \<in> set (def_alias d). \<not> map_has a (name2def (fst s))"
  shows "reg_inv (fst (register d s)) (snd (register d s))"
  unfolding reg_inv_def
proof (intro ballI)
  fix a assume "a \<in> registered (fst (register d s))"
  then consider "a = ndefs (snd s)" | "a \<in> registered (fst s)" "a \<noteq> ndefs (snd s)"
    using registered_register[of d s] by blast
  then show "a < ndefs (snd (register d s)) \<and>
         map_get (def_id (defs (snd (register d s)) a)) (id2def (fst (register d s))) = Some a \<and>
         (\<forall>n\<in>set (names_of (snd (register d s)) a). map_get n (name2def (fst (register d s))) = Some a)"
  proof cases
    case 1
    then show ?thesis
      by (auto simp: register_def Let_def names_of_def map_get_map_set map_get_fold_map_set)
  next
    case 2
    from inv 2(1) have lt: "a < ndefs (snd s)"
      and i: "map_get (def_id (defs (snd s) a)) (id2def (fst s)) = Some a"
      and n: "\<forall>n\<in>set (names_of (snd s) a). map_get n (name2def (fst s)) = Some a"
      by (auto simp: reg_inv_def)
    have same: "defs (snd (register d s)) a = defs (snd s) a"
      using 2(2) by (simp add: register_def Let_def)
    have idne: "def_id (defs (snd s) a) \<noteq> def_id d"
      using i free(2) by (auto simp: map_has_get)
    have nne: "\<forall>n\<in>set (names_of (snd s) a). n \<noteq> def_name d \<and> n \<notin> set (def_alias d)"
      using n free(1,3) by (auto simp: map_has_get)
    show ?thesis
      using lt i n idne nne same
      by (auto simp: register_def Let_def names_of_def map_get_map_set map_get_fold_map_set)
  qed
qed

lemma reg_inv_collect_one:
  assumes "reg_inv (fst s) (snd s)"
  shows "reg_inv (fst (fst (collect_one path d0 s))) (snd (fst (collect_one path d0 s)))"
proof (cases "collides (fst s) d0")
  case True
  then show ?thesis using assms collect_one_collides[of s d0 path] by simp
next
  case False
  then have "reg_inv (fst (register (assign_id (fst s) d0) s)) (snd (register (assign_id (fst s) d0) s))"
    using assms by (intro reg_inv_register) (auto simp: collides_def Let_def)
  then show ?thesis using False by (simp add: collect_one_free)
qed

lemma reg_inv_collect_all:
  assumes "reg_inv (fst s) (snd s)"
  shows "reg_inv (fst (fst (collect_all path ds s))) (snd (fst (collect_all path ds s)))"
  using assms
proof (induction ds arbitrary: s)
  case Nil
  then show ?case by simp
next
  case (Cons d ds)
  obtain s1 r1 where one: "collect_one path d s = (s1, r1)"
    by (cases "collect_one path d s")
  then have inv1: "reg_inv (fst s1) (snd s1)"
    using reg_inv_collect_one[OF Cons.prems, of path d] by simp
  show ?case
  proof (cases r1)
    case (Inl e)
    then show ?thesis using one inv1 by simp
  next
    case (Inr p)
    then show ?thesis
      using one Cons.IH[OF inv1] by (auto split: prod.splits sum.splits)
  qed
qed

lemma reg_inv_collectDefinition:
  assumes "reg_inv (fst s) (snd s)"
  shows "reg_inv (fst (fst (collectDefinition P text path pos s)))
           (snd (fst (collectDefinition P text path pos s)))"
proof (cases "parseDefinition P text path pos (fragments (snd s))")
  case (Inl e)
  then show ?thesis using assms by (simp add: collectDefinition_def)
next
  case (Inr x)
  then obtain fh ds fs where x: "x = (fh, ds, fs)" by (cases x) auto
  have "reg_inv (fst (fst s, (snd s)\<lparr>fragments := fh\<rparr>)) (snd (fst s, (snd s)\<lparr>fragments := fh\<rparr>))"
    using assms reg_inv_frame[OF _ frame_fragments] by simp
  from reg_inv_collect_all[OF this, of path ds] show ?thesis
    using Inr x by (auto simp: collectDefinition_def split: prod.splits sum.splits)
qed

lemma reachable_reg_inv: "reachable s \<Longrightarrow> reg_inv (fst s) (snd s)"
proof (induction rule: reachable.induct)
  case (constructed uslug options h)
  then show ?case by (simp add: reg_inv_def registered_def BiDoc_def)
next
  case (collected s P t path pos)
  from collected.IH show ?case by (rule reg_inv_collectDefinition)
next
  case (rendered b h P path s pos defRenderer refRenderer)
  from rendered.IH show ?case using reg_inv_frame[OF _ frame_renderText] by simp
qed

lemma ex_collected_reachable: "reachable ex_collected"
  unfolding ex_collected_def ex_new_bidoc_def
  by (rule reachable.collected[OF reachable.constructed])

lemma ex_state_reachable: "reachable ex_state"
proof -
  have "reachable (fst ex_collected, snd ex_collected)"
    using ex_collected_reachable by simp
  from reachable.rendered[OF this] show ?thesis
    unfolding ex_state_def .
qed

lemma ex_state_facts:
  "0 \<in> registered (fst ex_state)" "1 \<in> registered (fst ex_state)"
  "''Gadget'' \<in> set (names_of (snd ex_state) 0)"
  "def_id (defs (snd ex_state) 0) = ''widget''"
  "links (fst ex_state) (snd ex_state) 0 =
     [''doc1#widget-ref-1'', ''doc1#widget-ref-1'', ''doc1#widget-ref-2'', ''doc1#widget-ref-3'']"
  by code_simp+

text \<open>
  C7. In every state of the engine, for every registered definition, \<^verbatim>\<open>getReverseRefs\<close>
  with the definition's id and \<^verbatim>\<open>getReverseRefs\<close> with its name or any of its aliases
  return the same list: the links of that definition.
\<close>

theorem getReverseRefs_id_name:
  assumes "reachable (b, h)" and "a \<in> registered b" and "n \<in> set (names_of h a)"
  shows "getReverseRefs (ById (def_id (defs h a))) b h = getReverseRefs (ByName n) b h \<and>
         getReverseRefs (ByName n) b h = Inr (links b h a)"
proof -
  from reachable_reg_inv[OF assms(1)] assms(2,3)
  have "map_get (def_id (defs h a)) (id2def b) = Some a" and "map_get n (name2def b) = Some a"
    by (auto simp: reg_inv_def)
  then show ?thesis
    by (simp add: getReverseRefs_def links_def)
qed

theorem getReverseRefs_id_name_witness:
  "getReverseRefs (ById ''widget'') (fst ex_state) (snd ex_state)
     = getReverseRefs (ByName ''Gadget'') (fst ex_state) (snd ex_state) \<and>
   getReverseRefs (ByName ''Gadget'') (fst ex_state) (snd ex_state)
     = Inr [''doc1#widget-ref-1'', ''doc1#widget-ref-1'', ''doc1#widget-ref-2'', ''doc1#widget-ref-3'']"
proof -
  have r: "reachable (fst ex_state, snd ex_state)"
    using ex_state_reachable by simp
  from getReverseRefs_id_name[OF r ex_state_facts(1) ex_state_facts(3)]
  show ?thesis
    unfolding ex_state_facts(4) ex_state_facts(5) .
qed

text \<open>
  C3, as the code has it. In every state of the engine, so after any sequence of
  \<^verbatim>\<open>collectDefinition\<close> calls that return, two different registered definitions have
  different ids and share no name or alias.
\<close>

theorem registered_definitions_disjoint:
  assumes "reachable (b, h)" and "a \<in> registered b" and "a' \<in> registered b" and "a \<noteq> a'"
  shows "def_id (defs h a) \<noteq> def_id (defs h a') \<and> set (names_of h a) \<inter> set (names_of h a') = {}"
proof -
  from reachable_reg_inv[OF assms(1)] assms(2,3)
  have i: "map_get (def_id (defs h a)) (id2def b) = Some a"
      "map_get (def_id (defs h a')) (id2def b) = Some a'"
    and n: "\<forall>n\<in>set (names_of h a). map_get n (name2def b) = Some a"
      "\<forall>n\<in>set (names_of h a'). map_get n (name2def b) = Some a'"
    by (auto simp: reg_inv_def)
  from i assms(4) have "def_id (defs h a) \<noteq> def_id (defs h a')" by auto
  moreover from n assms(4) have "set (names_of h a) \<inter> set (names_of h a') = {}" by fastforce
  ultimately show ?thesis by simp
qed

theorem registered_definitions_disjoint_witness:
  "def_id (defs (snd ex_state) 0) \<noteq> def_id (defs (snd ex_state) 1) \<and>
   set (names_of (snd ex_state) 0) \<inter> set (names_of (snd ex_state) 1) = {}"
proof -
  have r: "reachable (fst ex_state, snd ex_state)"
    using ex_state_reachable by simp
  have ne: "(0::nat) \<noteq> 1" by simp
  from registered_definitions_disjoint[OF r ex_state_facts(1) ex_state_facts(2) ne]
  show ?thesis .
qed

text \<open>
  C3, as stated, fails: a definition whose alias list repeats its own name, or repeats
  an alias, is collected without an error, since each name is checked against the
  registry before any of them is entered. The names of the registered definitions then
  hold a string twice.
\<close>

theorem duplicate_within_definition_counterexample:
  "snd (collectDefinition ex_dup_parser ''[[Widget|Widget|Gadget|Gadget:w]]'' ''doc0'' () (ex_new_bidoc, ex_heap0))
     = Inr ([0], [5]) \<and>
   \<not> distinct (registered_names
         (fst (collectDefinition ex_dup_parser ''[[Widget|Widget|Gadget|Gadget:w]]'' ''doc0'' () (ex_new_bidoc, ex_heap0))))"
  by code_simp

section \<open>Collecting definitions\<close>

lemma extends_refl [simp]: "extends s s"
  by (simp add: extends_def)

lemma extends_trans:
  assumes "extends s s1" and "extends s1 s2"
  shows "extends s s2"
proof -
  have "defs (snd s2) a = defs (snd s) a" if "a < ndefs (snd s)" for a
  proof -
    from that assms(1) have "a < ndefs (snd s1)" and "defs (snd s1) a = defs (snd s) a"
      by (auto simp: extends_def)
    with assms(2) show ?thesis by (simp add: extends_def)
  qed
  moreover have "ndefs (snd s) \<le> ndefs (snd s2)"
    using assms by (simp add: extends_def)
  moreover have "defIdGenerator (fst s2) = defIdGenerator (fst s)"
    using assms by (simp add: extends_def)
  moreover have "map_get k (name2def (fst s2)) = Some a" if "map_get k (name2def (fst s)) = Some a" for k a
    using that assms by (simp add: extends_def)
  moreover have "map_get k (id2def (fst s2)) = Some a" if "map_get k (id2def (fst s)) = Some a" for k a
    using that assms by (simp add: extends_def)
  ultimately show ?thesis
    unfolding extends_def by blast
qed

lemma extends_registered_as:
  assumes "extends s s'" and "registered_as s d p"
  shows "registered_as s' d p"
proof -
  from assms(2) have p: "p < ndefs (snd s)" by (simp add: registered_as_def)
  with assms(1) have "p < ndefs (snd s')" and "defs (snd s') p = defs (snd s) p"
    by (auto simp: extends_def)
  moreover have "map_get (def_name d) (name2def (fst s')) = Some p"
    and "map_get (def_id d) (id2def (fst s')) = Some p"
    using assms by (simp_all add: extends_def registered_as_def)
  moreover have "\<forall>a \<in> set (def_alias d). map_get a (name2def (fst s')) = Some p"
    using assms by (simp add: extends_def registered_as_def)
  ultimately show ?thesis
    using assms(2) by (simp add: registered_as_def)
qed

lemma assign_id_cong: "defIdGenerator b' = defIdGenerator b \<Longrightarrow> assign_id b' d = assign_id b d"
  by (simp add: assign_id_def)

lemma extends_register:
  assumes "\<not> map_has (def_name d) (name2def (fst s))"
    "\<not> map_has (def_id d) (id2def (fst s))"
    "\<forall>a \<in> set (def_alias d). \<not> map_has a (name2def (fst s))"
  shows "extends s (register d s)"
  using assms
  by (auto simp: extends_def register_def Let_def map_get_map_set map_get_fold_map_set map_has_get)

lemma registered_as_register: "registered_as (register d s) d (ndefs (snd s))"
  by (simp add: registered_as_def register_def Let_def map_get_map_set map_get_fold_map_set)

lemma extends_collect_one: "extends s (fst (collect_one path d0 s))"
proof (cases "collides (fst s) d0")
  case True
  then show ?thesis using collect_one_collides[of s d0 path] by simp
next
  case False
  then have "extends s (register (assign_id (fst s) d0) s)"
    by (intro extends_register) (auto simp: collides_def Let_def)
  then show ?thesis using False by (simp add: collect_one_free)
qed

lemma collect_all_registered:
  assumes "snd (collect_all path ds s) = Inr ps"
  shows "extends s (fst (collect_all path ds s)) \<and>
         list_all2 (registered_as (fst (collect_all path ds s))) (map (assign_id (fst s)) ds) ps"
  using assms
proof (induction ds arbitrary: s ps)
  case Nil
  then show ?case by simp
next
  case (Cons d ds)
  obtain s1 r1 where one: "collect_one path d s = (s1, r1)"
    by (cases "collect_one path d s")
  obtain s2 r2 where rest: "collect_all path ds s1 = (s2, r2)"
    by (cases "collect_all path ds s1")
  from Cons.prems one rest obtain p qs where r: "r1 = Inr p" "r2 = Inr qs" "ps = p # qs"
    by (auto split: sum.splits)
  have free: "\<not> collides (fst s) d"
    using one r(1) collect_one_collides[of s d path] by auto
  then have s1: "s1 = register (assign_id (fst s) d) s" and p: "p = ndefs (snd s)"
    using one r(1) by (simp_all add: collect_one_free)
  have e1: "extends s s1"
    using extends_collect_one[of s path d] one by simp
  from Cons.IH[of s1 qs] rest r(2)
  have e2: "extends s1 s2"
    and all: "list_all2 (registered_as s2) (map (assign_id (fst s1)) ds) qs"
    by simp_all
  have gen: "assign_id (fst s1) = assign_id (fst s)"
    using e1 by (auto simp: extends_def intro: assign_id_cong)
  have "registered_as s1 (assign_id (fst s) d) p"
    unfolding s1 p by (rule registered_as_register)
  then have "registered_as s2 (assign_id (fst s) d) p"
    using e2 by (rule extends_registered_as[rotated])
  moreover have "fst (collect_all path (d # ds) s) = s2"
    using one rest r by simp
  ultimately show ?case
    using all gen r(3) extends_trans[OF e1 e2] by simp
qed

lemma collect_all_append:
  "collect_all path (pre @ ds) s =
     (case collect_all path pre s of
        (s', Inl e) \<Rightarrow> (s', Inl e)
      | (s', Inr ps) \<Rightarrow>
          (case collect_all path ds s' of
             (s'', Inl e) \<Rightarrow> (s'', Inl e)
           | (s'', Inr qs) \<Rightarrow> (s'', Inr (ps @ qs))))"
  by (induction pre arbitrary: s) (auto split: prod.splits sum.splits)

lemma collect_all_collides:
  assumes "collides (fst (fst (collect_all path pre s))) d0"
  shows "\<exists>e. snd (collect_all path (pre @ d0 # post) s) = Inl e"
proof -
  obtain s1 r1 where pre: "collect_all path pre s = (s1, r1)"
    by (cases "collect_all path pre s")
  with assms have "collides (fst s1) d0" by simp
  from collect_one_collides[OF this, of path] obtain e where
    "collect_one path d0 s1 = (s1, Inl e)"
    by (metis prod.collapse)
  then show ?thesis
    using pre by (cases r1) (simp_all add: collect_all_append)
qed

lemma collect_one_error:
  assumes "snd (collect_one path d0 s) = Inl e"
  shows "\<exists>n. e = duplicate_name n path \<or> e = duplicate_id n path"
  using assms by (auto simp: collect_one_def Let_def split: if_splits option.splits)

lemma collect_all_error:
  assumes "snd (collect_all path ds s) = Inl e"
  shows "\<exists>n. e = duplicate_name n path \<or> e = duplicate_id n path"
  using assms
proof (induction ds arbitrary: s)
  case Nil
  then show ?case by simp
next
  case (Cons d ds)
  obtain s1 r1 where one: "collect_one path d s = (s1, r1)"
    by (cases "collect_one path d s")
  show ?case
  proof (cases r1)
    case (Inl e1)
    then have "snd (collect_one path d s) = Inl e" using Cons.prems one by simp
    then show ?thesis by (rule collect_one_error)
  next
    case (Inr p)
    then have "snd (collect_all path ds s1) = Inl e"
      using Cons.prems one by (auto split: prod.splits sum.splits)
    then show ?thesis by (rule Cons.IH)
  qed
qed

lemma collect_one_dup_name:
  assumes "map_has (def_name (assign_id (fst s) d0)) (name2def (fst s))"
  shows "collect_one path d0 s = (s, Inl (duplicate_name (def_name (assign_id (fst s) d0)) path))"
  using assms by (simp add: collect_one_def Let_def)

lemma collect_one_dup_id:
  assumes "\<not> map_has (def_name (assign_id (fst s) d0)) (name2def (fst s))"
    and "map_has (def_id (assign_id (fst s) d0)) (id2def (fst s))"
  shows "collect_one path d0 s = (s, Inl (duplicate_id (def_id (assign_id (fst s) d0)) path))"
  using assms by (simp add: collect_one_def Let_def)

lemma collect_one_dup_alias:
  assumes "\<not> map_has (def_name (assign_id (fst s) d0)) (name2def (fst s))"
    and "\<not> map_has (def_id (assign_id (fst s) d0)) (id2def (fst s))"
    and "\<exists>a \<in> set (def_alias (assign_id (fst s) d0)). map_has a (name2def (fst s))"
  shows "\<exists>a \<in> set (def_alias (assign_id (fst s) d0)). map_has a (name2def (fst s)) \<and>
           collect_one path d0 s = (s, Inl (duplicate_name a path))"
proof -
  let ?d = "assign_id (fst s) d0"
  from assms(3) obtain a where f: "find (\<lambda>a. map_has a (name2def (fst s))) (def_alias ?d) = Some a"
    by (cases "find (\<lambda>a. map_has a (name2def (fst s))) (def_alias ?d)") (auto simp: find_None_iff)
  then have "a \<in> set (def_alias ?d) \<and> map_has a (name2def (fst s))"
    by (auto simp: find_Some_iff)
  moreover have "collect_one path d0 s = (s, Inl (duplicate_name a path))"
    using assms(1,2) f by (simp add: collect_one_def Let_def)
  ultimately show ?thesis by blast
qed

lemma collect_one_dup_alias_first:
  assumes "\<not> map_has (def_name (assign_id (fst s) d0)) (name2def (fst s))"
    and "\<not> map_has (def_id (assign_id (fst s) d0)) (id2def (fst s))"
    and "find (\<lambda>a. map_has a (name2def (fst s))) (def_alias (assign_id (fst s) d0)) = Some a"
  shows "collect_one path d0 s = (s, Inl (duplicate_name a path))"
  using assms by (simp add: collect_one_def Let_def)

lemma collect_all_first_collision:
  assumes "collect_all path pre s = (sp, Inr ps)" and "collides (fst sp) d0"
  shows "\<exists>e. collect_one path d0 sp = (sp, Inl e) \<and>
              collect_all path (pre @ d0 # post) s = (sp, Inl e)"
proof -
  from collect_one_collides[OF assms(2), of path] obtain e where
    one: "collect_one path d0 sp = (sp, Inl e)"
    by (metis prod.collapse)
  then have "collect_all path (pre @ d0 # post) s = (sp, Inl e)"
    using assms(1) by (simp add: collect_all_append)
  with one show ?thesis by blast
qed

lemma collect_all_Inl_first:
  assumes "snd (collect_all path ds s) = Inl e"
  shows "\<exists>pre d post sp ps.
           ds = pre @ d # post \<and> collect_all path pre s = (sp, Inr ps) \<and> collides (fst sp) d"
  using assms
proof (induction ds arbitrary: s)
  case Nil
  then show ?case by simp
next
  case (Cons d ds)
  show ?case
  proof (cases "collides (fst s) d")
    case True
    have "d # ds = [] @ d # ds" by simp
    moreover have "collect_all path [] s = (s, Inr [])" by simp
    ultimately show ?thesis using True by blast
  next
    case False
    let ?s1 = "register (assign_id (fst s) d) s"
    let ?p = "ndefs (snd s)"
    have one: "collect_one path d s = (?s1, Inr ?p)"
      using False by (rule collect_one_free)
    then have "snd (collect_all path ds ?s1) = Inl e"
      using Cons.prems by (auto split: prod.splits sum.splits)
    from Cons.IH[OF this] obtain pre d' post sp ps where
      ih: "ds = pre @ d' # post" "collect_all path pre ?s1 = (sp, Inr ps)" "collides (fst sp) d'"
      by blast
    have pre: "collect_all path (d # pre) s = (sp, Inr (?p # ps))"
      using one ih(2) by simp
    moreover have "d # ds = (d # pre) @ d' # post" using ih(1) by simp
    ultimately show ?thesis using ih(3) by blast
  qed
qed

text \<open>
  C2. Let the parser return the definitions \<open>ds\<close>. If the definitions before \<open>d0\<close> were
  registered and \<open>d0\<close> has its name among the keys of \<open>name2def\<close>, its assigned id among
  the keys of \<open>id2def\<close> or an alias among the keys of \<open>name2def\<close>, then
  \<^verbatim>\<open>collectDefinition\<close> throws the error that the loop body throws for \<open>d0\<close>, in the
  state the earlier definitions left: the duplicate-name error for the name of \<open>d0\<close> if
  that is a key, else the duplicate-id error for its id if that is a key, else the
  duplicate-name error for its first alias that is a key. If any parsed definition collides
  when it is reached, there is a first one that does, and the call throws its error. The
  message of a duplicate error holds the name or id and the path. When the call returns,
  every parsed definition, with its id assigned, is registered under its name, its id and
  every alias; and for one definition, the loop body registers it when nothing collides.
\<close>

theorem collectDefinition_duplicates:
  assumes "parseDefinition P text path pos (fragments (snd s)) = Inr (fh, ds, fs)"
  shows "(ds = pre @ d0 # post \<and>
          collect_all path pre (fst s, (snd s)\<lparr>fragments := fh\<rparr>) = (sp, Inr ps0) \<and>
          collides (fst sp) d0 \<longrightarrow>
            (\<exists>e. collect_one path d0 sp = (sp, Inl e) \<and>
                 collectDefinition P text path pos s = (sp, Inl e)) \<and>
            (map_has (def_name (assign_id (fst sp) d0)) (name2def (fst sp)) \<longrightarrow>
               snd (collectDefinition P text path pos s)
                 = Inl (duplicate_name (def_name (assign_id (fst sp) d0)) path)) \<and>
            (\<not> map_has (def_name (assign_id (fst sp) d0)) (name2def (fst sp)) \<and>
             map_has (def_id (assign_id (fst sp) d0)) (id2def (fst sp)) \<longrightarrow>
               snd (collectDefinition P text path pos s)
                 = Inl (duplicate_id (def_id (assign_id (fst sp) d0)) path)) \<and>
            (\<not> map_has (def_name (assign_id (fst sp) d0)) (name2def (fst sp)) \<and>
             \<not> map_has (def_id (assign_id (fst sp) d0)) (id2def (fst sp)) \<and>
             find (\<lambda>a. map_has a (name2def (fst sp))) (def_alias (assign_id (fst sp) d0)) = Some a0 \<longrightarrow>
               snd (collectDefinition P text path pos s) = Inl (duplicate_name a0 path))) \<and>
         (ds = pre @ d0 # post \<and>
          collides (fst (fst (collect_all path pre (fst s, (snd s)\<lparr>fragments := fh\<rparr>)))) d0 \<longrightarrow>
            (\<exists>pre' d' post' sp' ps' e.
               ds = pre' @ d' # post' \<and>
               collect_all path pre' (fst s, (snd s)\<lparr>fragments := fh\<rparr>) = (sp', Inr ps') \<and>
               collides (fst sp') d' \<and>
               collect_one path d' sp' = (sp', Inl e) \<and>
               collectDefinition P text path pos s = (sp', Inl e)) \<and>
            (\<exists>n. snd (collectDefinition P text path pos s) = Inl (duplicate_name n path) \<or>
                 snd (collectDefinition P text path pos s) = Inl (duplicate_id n path))) \<and>
         (snd (collectDefinition P text path pos s) = Inr (ps, fs') \<longrightarrow>
            fs' = fs \<and>
            list_all2 (registered_as (fst (collectDefinition P text path pos s)))
              (map (assign_id (fst s)) ds) ps) \<and>
         (map_has (def_name (assign_id (fst s1) d1)) (name2def (fst s1)) \<longrightarrow>
            collect_one path d1 s1 = (s1, Inl (duplicate_name (def_name (assign_id (fst s1) d1)) path))) \<and>
         (\<not> map_has (def_name (assign_id (fst s1) d1)) (name2def (fst s1)) \<and>
          map_has (def_id (assign_id (fst s1) d1)) (id2def (fst s1)) \<longrightarrow>
            collect_one path d1 s1 = (s1, Inl (duplicate_id (def_id (assign_id (fst s1) d1)) path))) \<and>
         (\<not> map_has (def_name (assign_id (fst s1) d1)) (name2def (fst s1)) \<and>
          \<not> map_has (def_id (assign_id (fst s1) d1)) (id2def (fst s1)) \<and>
          (\<exists>a \<in> set (def_alias (assign_id (fst s1) d1)). map_has a (name2def (fst s1))) \<longrightarrow>
            (\<exists>a \<in> set (def_alias (assign_id (fst s1) d1)). map_has a (name2def (fst s1)) \<and>
               collect_one path d1 s1 = (s1, Inl (duplicate_name a path)))) \<and>
         (\<not> map_has (def_name (assign_id (fst s1) d1)) (name2def (fst s1)) \<and>
          \<not> map_has (def_id (assign_id (fst s1) d1)) (id2def (fst s1)) \<and>
          find (\<lambda>a. map_has a (name2def (fst s1))) (def_alias (assign_id (fst s1) d1)) = Some a1 \<longrightarrow>
            collect_one path d1 s1 = (s1, Inl (duplicate_name a1 path))) \<and>
         (\<not> collides (fst s1) d1 \<longrightarrow>
            collect_one path d1 s1 = (register (assign_id (fst s1) d1) s1, Inr (ndefs (snd s1))) \<and>
            registered_as (register (assign_id (fst s1) d1) s1) (assign_id (fst s1) d1) (ndefs (snd s1))) \<and>
         duplicate_name n path = Error (''Duplicate definition name: '' @ n @ '' in file '' @ path) \<and>
         duplicate_id n path = Error (''Duplicate definition id: '' @ n @ '' in file '' @ path)"
proof -
  let ?s0 = "(fst s, (snd s)\<lparr>fragments := fh\<rparr>)"
  have run: "collectDefinition P text path pos s =
      (case collect_all path ds ?s0 of (s', Inl e) \<Rightarrow> (s', Inl e) | (s', Inr ps) \<Rightarrow> (s', Inr (ps, fs)))"
    using assms by (simp add: collectDefinition_def)
  have first: "\<exists>e. collect_one path d' sp' = (sp', Inl e) \<and>
                    collectDefinition P text path pos s = (sp', Inl e)"
    if "ds = pre' @ d' # post'" "collect_all path pre' ?s0 = (sp', Inr ps')" "collides (fst sp') d'"
    for pre' d' post' sp' ps'
  proof -
    from collect_all_first_collision[OF that(2,3), where post = post', folded that(1)] obtain e where
      e: "collect_one path d' sp' = (sp', Inl e)" "collect_all path ds ?s0 = (sp', Inl e)"
      by blast
    have "collectDefinition P text path pos s = (sp', Inl e)"
      unfolding run using e(2) by simp
    with e(1) show ?thesis by blast
  qed
  have c0: "ds = pre @ d0 # post \<and> collect_all path pre ?s0 = (sp, Inr ps0) \<and> collides (fst sp) d0 \<longrightarrow>
            (\<exists>e. collect_one path d0 sp = (sp, Inl e) \<and>
                 collectDefinition P text path pos s = (sp, Inl e)) \<and>
            (map_has (def_name (assign_id (fst sp) d0)) (name2def (fst sp)) \<longrightarrow>
               snd (collectDefinition P text path pos s)
                 = Inl (duplicate_name (def_name (assign_id (fst sp) d0)) path)) \<and>
            (\<not> map_has (def_name (assign_id (fst sp) d0)) (name2def (fst sp)) \<and>
             map_has (def_id (assign_id (fst sp) d0)) (id2def (fst sp)) \<longrightarrow>
               snd (collectDefinition P text path pos s)
                 = Inl (duplicate_id (def_id (assign_id (fst sp) d0)) path)) \<and>
            (\<not> map_has (def_name (assign_id (fst sp) d0)) (name2def (fst sp)) \<and>
             \<not> map_has (def_id (assign_id (fst sp) d0)) (id2def (fst sp)) \<and>
             find (\<lambda>a. map_has a (name2def (fst sp))) (def_alias (assign_id (fst sp) d0)) = Some a0 \<longrightarrow>
               snd (collectDefinition P text path pos s) = Inl (duplicate_name a0 path))"
  proof
    assume a: "ds = pre @ d0 # post \<and> collect_all path pre ?s0 = (sp, Inr ps0) \<and> collides (fst sp) d0"
    then obtain e where one: "collect_one path d0 sp = (sp, Inl e)"
      and call: "collectDefinition P text path pos s = (sp, Inl e)"
      using first[of pre d0 post sp ps0] by auto
    have both: "\<exists>e. collect_one path d0 sp = (sp, Inl e) \<and>
                 collectDefinition P text path pos s = (sp, Inl e)"
      using one call by blast
    have n: "map_has (def_name (assign_id (fst sp) d0)) (name2def (fst sp)) \<longrightarrow>
               snd (collectDefinition P text path pos s)
                 = Inl (duplicate_name (def_name (assign_id (fst sp) d0)) path)"
      unfolding call using one collect_one_dup_name[of sp d0 path] by auto
    have i: "\<not> map_has (def_name (assign_id (fst sp) d0)) (name2def (fst sp)) \<and>
             map_has (def_id (assign_id (fst sp) d0)) (id2def (fst sp)) \<longrightarrow>
               snd (collectDefinition P text path pos s)
                 = Inl (duplicate_id (def_id (assign_id (fst sp) d0)) path)"
      unfolding call using one collect_one_dup_id[of sp d0 path] by auto
    have al: "\<not> map_has (def_name (assign_id (fst sp) d0)) (name2def (fst sp)) \<and>
             \<not> map_has (def_id (assign_id (fst sp) d0)) (id2def (fst sp)) \<and>
             find (\<lambda>a. map_has a (name2def (fst sp))) (def_alias (assign_id (fst sp) d0)) = Some a0 \<longrightarrow>
               snd (collectDefinition P text path pos s) = Inl (duplicate_name a0 path)"
      unfolding call using one collect_one_dup_alias_first[of sp d0 a0 path] by auto
    show "(\<exists>e. collect_one path d0 sp = (sp, Inl e) \<and>
                 collectDefinition P text path pos s = (sp, Inl e)) \<and>
            (map_has (def_name (assign_id (fst sp) d0)) (name2def (fst sp)) \<longrightarrow>
               snd (collectDefinition P text path pos s)
                 = Inl (duplicate_name (def_name (assign_id (fst sp) d0)) path)) \<and>
            (\<not> map_has (def_name (assign_id (fst sp) d0)) (name2def (fst sp)) \<and>
             map_has (def_id (assign_id (fst sp) d0)) (id2def (fst sp)) \<longrightarrow>
               snd (collectDefinition P text path pos s)
                 = Inl (duplicate_id (def_id (assign_id (fst sp) d0)) path)) \<and>
            (\<not> map_has (def_name (assign_id (fst sp) d0)) (name2def (fst sp)) \<and>
             \<not> map_has (def_id (assign_id (fst sp) d0)) (id2def (fst sp)) \<and>
             find (\<lambda>a. map_has a (name2def (fst sp))) (def_alias (assign_id (fst sp) d0)) = Some a0 \<longrightarrow>
               snd (collectDefinition P text path pos s) = Inl (duplicate_name a0 path))"
      by (intro conjI both n i al)
  qed
  have c1: "ds = pre @ d0 # post \<and> collides (fst (fst (collect_all path pre ?s0))) d0 \<longrightarrow>
            (\<exists>pre' d' post' sp' ps' e.
               ds = pre' @ d' # post' \<and> collect_all path pre' ?s0 = (sp', Inr ps') \<and>
               collides (fst sp') d' \<and>
               collect_one path d' sp' = (sp', Inl e) \<and>
               collectDefinition P text path pos s = (sp', Inl e)) \<and>
            (\<exists>n. snd (collectDefinition P text path pos s) = Inl (duplicate_name n path) \<or>
                 snd (collectDefinition P text path pos s) = Inl (duplicate_id n path))"
  proof
    assume a: "ds = pre @ d0 # post \<and> collides (fst (fst (collect_all path pre ?s0))) d0"
    then obtain e where e: "snd (collect_all path ds ?s0) = Inl e"
      using collect_all_collides[of path pre ?s0 d0 post] by auto
    from collect_all_error[OF this] obtain n where
      n: "e = duplicate_name n path \<or> e = duplicate_id n path" by blast
    have "snd (collectDefinition P text path pos s) = Inl e"
      using e unfolding run by (auto split: prod.splits sum.splits)
    with n have old: "\<exists>n. snd (collectDefinition P text path pos s) = Inl (duplicate_name n path) \<or>
                 snd (collectDefinition P text path pos s) = Inl (duplicate_id n path)"
      by blast
    from collect_all_Inl_first[OF e] obtain pre' d' post' sp' ps' where
      f: "ds = pre' @ d' # post'" "collect_all path pre' ?s0 = (sp', Inr ps')" "collides (fst sp') d'"
      by blast
    from first[OF f] f
    have "\<exists>pre' d' post' sp' ps' e.
               ds = pre' @ d' # post' \<and> collect_all path pre' ?s0 = (sp', Inr ps') \<and>
               collides (fst sp') d' \<and>
               collect_one path d' sp' = (sp', Inl e) \<and>
               collectDefinition P text path pos s = (sp', Inl e)"
      by blast
    with old show "(\<exists>pre' d' post' sp' ps' e.
               ds = pre' @ d' # post' \<and> collect_all path pre' ?s0 = (sp', Inr ps') \<and>
               collides (fst sp') d' \<and>
               collect_one path d' sp' = (sp', Inl e) \<and>
               collectDefinition P text path pos s = (sp', Inl e)) \<and>
            (\<exists>n. snd (collectDefinition P text path pos s) = Inl (duplicate_name n path) \<or>
                 snd (collectDefinition P text path pos s) = Inl (duplicate_id n path))"
      by (intro conjI)
  qed
  have c2: "snd (collectDefinition P text path pos s) = Inr (ps, fs') \<longrightarrow>
            fs' = fs \<and>
            list_all2 (registered_as (fst (collectDefinition P text path pos s)))
              (map (assign_id (fst s)) ds) ps"
  proof
    assume a: "snd (collectDefinition P text path pos s) = Inr (ps, fs')"
    then have ok: "snd (collect_all path ds ?s0) = Inr ps" and fs: "fs' = fs"
      and st: "fst (collectDefinition P text path pos s) = fst (collect_all path ds ?s0)"
      unfolding run by (auto split: prod.splits sum.splits)
    from collect_all_registered[OF ok] fs st
    show "fs' = fs \<and> list_all2 (registered_as (fst (collectDefinition P text path pos s)))
              (map (assign_id (fst s)) ds) ps"
      by simp
  qed
  have c3: "map_has (def_name (assign_id (fst s1) d1)) (name2def (fst s1)) \<longrightarrow>
            collect_one path d1 s1 = (s1, Inl (duplicate_name (def_name (assign_id (fst s1) d1)) path))"
    using collect_one_dup_name by blast
  have c4: "\<not> map_has (def_name (assign_id (fst s1) d1)) (name2def (fst s1)) \<and>
          map_has (def_id (assign_id (fst s1) d1)) (id2def (fst s1)) \<longrightarrow>
            collect_one path d1 s1 = (s1, Inl (duplicate_id (def_id (assign_id (fst s1) d1)) path))"
    using collect_one_dup_id by blast
  have c5: "\<not> map_has (def_name (assign_id (fst s1) d1)) (name2def (fst s1)) \<and>
          \<not> map_has (def_id (assign_id (fst s1) d1)) (id2def (fst s1)) \<and>
          (\<exists>a \<in> set (def_alias (assign_id (fst s1) d1)). map_has a (name2def (fst s1))) \<longrightarrow>
            (\<exists>a \<in> set (def_alias (assign_id (fst s1) d1)). map_has a (name2def (fst s1)) \<and>
               collect_one path d1 s1 = (s1, Inl (duplicate_name a path)))"
    using collect_one_dup_alias[of s1 d1 path] by blast
  have c5b: "\<not> map_has (def_name (assign_id (fst s1) d1)) (name2def (fst s1)) \<and>
          \<not> map_has (def_id (assign_id (fst s1) d1)) (id2def (fst s1)) \<and>
          find (\<lambda>a. map_has a (name2def (fst s1))) (def_alias (assign_id (fst s1) d1)) = Some a1 \<longrightarrow>
            collect_one path d1 s1 = (s1, Inl (duplicate_name a1 path))"
    using collect_one_dup_alias_first[of s1 d1 a1 path] by blast
  have c6: "\<not> collides (fst s1) d1 \<longrightarrow>
            collect_one path d1 s1 = (register (assign_id (fst s1) d1) s1, Inr (ndefs (snd s1))) \<and>
            registered_as (register (assign_id (fst s1) d1) s1) (assign_id (fst s1) d1) (ndefs (snd s1))"
    using collect_one_free[of s1 d1 path] registered_as_register by blast
  have c7: "duplicate_name n path = Error (''Duplicate definition name: '' @ n @ '' in file '' @ path)"
    by (simp add: duplicate_name_def)
  have c8: "duplicate_id n path = Error (''Duplicate definition id: '' @ n @ '' in file '' @ path)"
    by (simp add: duplicate_id_def)
  show ?thesis
    by (intro conjI c0 c1 c2 c3 c4 c5 c5b c6 c7 c8)
qed

lemma ex_collect_facts:
  "snd (collectDefinition ex_doc_parser ''[[Widget|Gadget]] [[Sprocket:sp]]'' ''doc0'' ()
      (ex_new_bidoc, ex_heap0)) = Inr ([0, 1], [5, 6])"
  "collides (fst ex_collected) (hd ex_parsed_defs)"
  "map (assign_id ex_new_bidoc) ex_parsed_defs =
     [\<lparr> def_name = ''Widget'', def_alias = [''Gadget''], def_id = ''widget'', def_fragment = 5, def_refs = [] \<rparr>,
      \<lparr> def_name = ''Sprocket'', def_alias = [], def_id = ''sp'', def_fragment = 6, def_refs = [] \<rparr>]"
  "map_has (def_name (assign_id (fst ex_collected) (hd ex_parsed_defs))) (name2def (fst ex_collected))"
  "def_name (assign_id (fst ex_collected) (hd ex_parsed_defs)) = ''Widget''"
  by code_simp+

lemma ex_alias_clash_facts:
  "collides (fst ex_collected) ex_alias_clash"
  "\<not> map_has (def_name (assign_id (fst ex_collected) ex_alias_clash)) (name2def (fst ex_collected))"
  "\<not> map_has (def_id (assign_id (fst ex_collected) ex_alias_clash)) (id2def (fst ex_collected))"
  "find (\<lambda>a. map_has a (name2def (fst ex_collected))) (def_alias (assign_id (fst ex_collected) ex_alias_clash))
     = Some ''Gadget''"
  by code_simp+

lemma ex_id_clash_facts:
  "collides (fst ex_collected) ex_id_clash"
  "\<not> map_has (def_name (assign_id (fst ex_collected) ex_id_clash)) (name2def (fst ex_collected))"
  "map_has (def_id (assign_id (fst ex_collected) ex_id_clash)) (id2def (fst ex_collected))"
  "def_id (assign_id (fst ex_collected) ex_id_clash) = ''sp''"
  by code_simp+

lemma ex_collected_prefix:
  "collect_all path [] (fst ex_collected, (snd ex_collected)\<lparr>fragments := fragments (snd ex_collected)\<rparr>)
     = (ex_collected, Inr [])"
  by simp

theorem collectDefinition_duplicates_witness:
  "list_all2 (registered_as ex_collected)
     [\<lparr> def_name = ''Widget'', def_alias = [''Gadget''], def_id = ''widget'', def_fragment = 5, def_refs = [] \<rparr>,
      \<lparr> def_name = ''Sprocket'', def_alias = [], def_id = ''sp'', def_fragment = 6, def_refs = [] \<rparr>]
     [0, 1] \<and>
   snd (collectDefinition ex_doc_parser ''[[Widget|Gadget]] [[Sprocket:sp]]'' ''doc0'' () ex_collected)
     = Inl (Error ''Duplicate definition name: Widget in file doc0'') \<and>
   snd (collectDefinition (ex_one_parser ex_alias_clash) ''[[Cog|Axle|Gadget|Sprocket:cog]]'' ''doc2'' ()
          ex_collected)
     = Inl (Error ''Duplicate definition name: Gadget in file doc2'') \<and>
   snd (collectDefinition (ex_one_parser ex_id_clash) ''[[Spring|Widget:sp]]'' ''doc3'' () ex_collected)
     = Inl (Error ''Duplicate definition id: sp in file doc3'')"
proof -
  let ?t = "''[[Widget|Gadget]] [[Sprocket:sp]]''"
  have p1: "parseDefinition ex_doc_parser ?t ''doc0'' () (fragments (snd (ex_new_bidoc, ex_heap0)))
      = Inr (fragments ex_heap0, ex_parsed_defs, [5, 6])"
    by (simp add: ex_doc_parser_def)
  have p2: "parseDefinition ex_doc_parser ?t ''doc0'' () (fragments (snd ex_collected))
      = Inr (fragments (snd ex_collected), ex_parsed_defs, [5, 6])"
    by (simp add: ex_doc_parser_def)
  have p3: "parseDefinition (ex_one_parser ex_alias_clash) ''[[Cog|Axle|Gadget|Sprocket:cog]]'' ''doc2'' ()
      (fragments (snd ex_collected))
      = Inr (fragments (snd ex_collected), [] @ ex_alias_clash # [], [def_fragment ex_alias_clash])"
    by (simp add: ex_one_parser_def ex_doc_parser_def)
  have p4: "parseDefinition (ex_one_parser ex_id_clash) ''[[Spring|Widget:sp]]'' ''doc3'' ()
      (fragments (snd ex_collected))
      = Inr (fragments (snd ex_collected), [] @ ex_id_clash # [], [def_fragment ex_id_clash])"
    by (simp add: ex_one_parser_def ex_doc_parser_def)
  have split: "ex_parsed_defs = [] @ hd ex_parsed_defs # tl ex_parsed_defs"
    by (simp add: ex_parsed_defs_def)
  have ok: "snd (collectDefinition ex_doc_parser ?t ''doc0'' () (ex_new_bidoc, ex_heap0)) = Inr ([0, 1], [5, 6])"
    by (rule ex_collect_facts(1))
  note t1 = collectDefinition_duplicates[OF p1, where ps = "[0, 1]" and fs' = "[5, 6]",
      THEN conjunct2, THEN conjunct2, THEN conjunct1, rule_format, OF ok, THEN conjunct2]
  note t2 = collectDefinition_duplicates[OF p2, where pre = "[]" and ?d0.0 = "hd ex_parsed_defs"
      and post = "tl ex_parsed_defs" and sp = ex_collected and ?ps0.0 = "[]",
      THEN conjunct1, rule_format,
      OF conjI[OF split conjI[OF ex_collected_prefix ex_collect_facts(2)]],
      THEN conjunct2, THEN conjunct1, rule_format, OF ex_collect_facts(4)]
  note t3 = collectDefinition_duplicates[OF p3, where pre = "[]" and ?d0.0 = ex_alias_clash
      and post = "[]" and sp = ex_collected and ?ps0.0 = "[]" and ?a0.0 = "''Gadget''",
      THEN conjunct1, rule_format,
      OF conjI[OF refl conjI[OF ex_collected_prefix ex_alias_clash_facts(1)]],
      THEN conjunct2, THEN conjunct2, THEN conjunct2, rule_format,
      OF conjI[OF ex_alias_clash_facts(2) conjI[OF ex_alias_clash_facts(3) ex_alias_clash_facts(4)]]]
  note t4 = collectDefinition_duplicates[OF p4, where pre = "[]" and ?d0.0 = ex_id_clash
      and post = "[]" and sp = ex_collected and ?ps0.0 = "[]",
      THEN conjunct1, rule_format,
      OF conjI[OF refl conjI[OF ex_collected_prefix ex_id_clash_facts(1)]],
      THEN conjunct2, THEN conjunct2, THEN conjunct1, rule_format,
      OF conjI[OF ex_id_clash_facts(2) ex_id_clash_facts(3)]]
  have "list_all2 (registered_as ex_collected) (map (assign_id ex_new_bidoc) ex_parsed_defs) [0, 1]"
    using t1 unfolding ex_collected_def by simp
  then have r1: "list_all2 (registered_as ex_collected)
     [\<lparr> def_name = ''Widget'', def_alias = [''Gadget''], def_id = ''widget'', def_fragment = 5, def_refs = [] \<rparr>,
      \<lparr> def_name = ''Sprocket'', def_alias = [], def_id = ''sp'', def_fragment = 6, def_refs = [] \<rparr>]
     [0, 1]"
    unfolding ex_collect_facts(3) .
  have r2: "snd (collectDefinition ex_doc_parser ?t ''doc0'' () ex_collected)
     = Inl (Error ''Duplicate definition name: Widget in file doc0'')"
    using t2 unfolding ex_collect_facts(5) by (simp add: duplicate_name_def)
  have r3: "snd (collectDefinition (ex_one_parser ex_alias_clash) ''[[Cog|Axle|Gadget|Sprocket:cog]]'' ''doc2'' ()
          ex_collected) = Inl (Error ''Duplicate definition name: Gadget in file doc2'')"
    using t3 by (simp add: duplicate_name_def)
  have r4: "snd (collectDefinition (ex_one_parser ex_id_clash) ''[[Spring|Widget:sp]]'' ''doc3'' () ex_collected)
     = Inl (Error ''Duplicate definition id: sp in file doc3'')"
    using t4 unfolding ex_id_clash_facts(4) by (simp add: duplicate_id_def)
  show ?thesis
    by (intro conjI r1 r2 r3 r4)
qed

section \<open>The rendering pipeline\<close>

lemma implicit_chain_Nil: "implicit_chain P path renderer [] sts = (\<exists>st. sts = [st])"
  by (auto simp: implicit_chain_def length_Suc_conv)

lemma implicit_chain_Cons:
  "implicit_chain P path renderer ((key, d) # m) sts =
     (\<exists>st rest. sts = st # rest \<and>
        renderImplicitReference P path (snd st) d key renderer (fst st)
          = (fst (hd rest), Inr (snd (hd rest))) \<and>
        implicit_chain P path renderer m rest)"
proof
  assume a: "implicit_chain P path renderer ((key, d) # m) sts"
  then obtain st rest where sts: "sts = st # rest" and len: "length rest = Suc (length m)"
    by (auto simp: implicit_chain_def length_Suc_conv)
  from len have hd: "hd rest = rest ! 0" by (cases rest) auto
  from a have step: "\<And>k. k < Suc (length m) \<Longrightarrow>
        renderImplicitReference P path (snd (sts ! k)) (snd (((key, d) # m) ! k))
          (fst (((key, d) # m) ! k)) renderer (fst (sts ! k))
          = (fst (sts ! Suc k), Inr (snd (sts ! Suc k)))"
    by (simp add: implicit_chain_def)
  have first: "renderImplicitReference P path (snd st) d key renderer (fst st)
          = (fst (hd rest), Inr (snd (hd rest)))"
    using step[of 0] sts hd by simp
  have "implicit_chain P path renderer m rest"
    unfolding implicit_chain_def
  proof (intro conjI allI impI)
    show "length rest = Suc (length m)" by (rule len)
  next
    fix k assume "k < length m"
    then show "renderImplicitReference P path (snd (rest ! k)) (snd (m ! k)) (fst (m ! k)) renderer
        (fst (rest ! k)) = (fst (rest ! Suc k), Inr (snd (rest ! Suc k)))"
      using step[of "Suc k"] sts by simp
  qed
  with sts first show "\<exists>st rest. sts = st # rest \<and>
        renderImplicitReference P path (snd st) d key renderer (fst st)
          = (fst (hd rest), Inr (snd (hd rest))) \<and>
        implicit_chain P path renderer m rest"
    by blast
next
  assume "\<exists>st rest. sts = st # rest \<and>
        renderImplicitReference P path (snd st) d key renderer (fst st)
          = (fst (hd rest), Inr (snd (hd rest))) \<and>
        implicit_chain P path renderer m rest"
  then obtain st rest where sts: "sts = st # rest"
    and first: "renderImplicitReference P path (snd st) d key renderer (fst st)
          = (fst (hd rest), Inr (snd (hd rest)))"
    and chain: "implicit_chain P path renderer m rest"
    by blast
  from chain have len: "length rest = Suc (length m)" by (simp add: implicit_chain_def)
  then have hd: "hd rest = rest ! 0" by (cases rest) auto
  show "implicit_chain P path renderer ((key, d) # m) sts"
    unfolding implicit_chain_def
  proof (intro conjI allI impI)
    show "length sts = Suc (length ((key, d) # m))" using sts len by simp
  next
    fix k assume k: "k < length ((key, d) # m)"
    show "renderImplicitReference P path (snd (sts ! k)) (snd (((key, d) # m) ! k))
          (fst (((key, d) # m) ! k)) renderer (fst (sts ! k))
          = (fst (sts ! Suc k), Inr (snd (sts ! Suc k)))"
    proof (cases k)
      case 0
      then show ?thesis using first sts hd by simp
    next
      case (Suc j)
      with k have "j < length m" by simp
      with chain have "renderImplicitReference P path (snd (rest ! j)) (snd (m ! j)) (fst (m ! j)) renderer
        (fst (rest ! j)) = (fst (rest ! Suc j), Inr (snd (rest ! Suc j)))"
        by (simp add: implicit_chain_def)
      then show ?thesis using Suc sts by simp
    qed
  qed
qed

lemma render_implicit_all_chain:
  "(render_implicit_all P path renderer m fs h = (h', Inr fs')) =
     (\<exists>sts. implicit_chain P path renderer m sts \<and> hd sts = (h, fs) \<and> last sts = (h', fs'))"
proof (induction m arbitrary: fs h)
  case Nil
  have "(\<exists>sts. (\<exists>st. sts = [st]) \<and> hd sts = (h, fs) \<and> last sts = (h', fs')) = ((h, fs) = (h', fs'))"
    by (metis last.simps list.sel(1))
  then show ?case by (auto simp: implicit_chain_Nil)
next
  case (Cons e m)
  obtain key d where e: "e = (key, d)" by (cases e)
  show ?case
  proof
    assume run: "render_implicit_all P path renderer (e # m) fs h = (h', Inr fs')"
    then obtain h1 fs1 where one: "renderImplicitReference P path fs d key renderer h = (h1, Inr fs1)"
      and rest: "render_implicit_all P path renderer m fs1 h1 = (h', Inr fs')"
      using e by (auto split: prod.splits sum.splits)
    from rest Cons.IH[of fs1 h1] obtain sts where
      sts: "implicit_chain P path renderer m sts" "hd sts = (h1, fs1)" "last sts = (h', fs')"
      by blast
    from sts(1) have ne: "sts \<noteq> []" by (auto simp: implicit_chain_def)
    have "implicit_chain P path renderer (e # m) ((h, fs) # sts)"
      unfolding e implicit_chain_Cons using one sts(1,2) by simp
    moreover have "hd ((h, fs) # sts) = (h, fs)" by simp
    moreover have "last ((h, fs) # sts) = (h', fs')" using sts(3) ne by simp
    ultimately show "\<exists>sts. implicit_chain P path renderer (e # m) sts \<and> hd sts = (h, fs) \<and>
        last sts = (h', fs')"
      by blast
  next
    assume "\<exists>sts. implicit_chain P path renderer (e # m) sts \<and> hd sts = (h, fs) \<and> last sts = (h', fs')"
    then obtain sts where chain: "implicit_chain P path renderer ((key, d) # m) sts"
      and ends: "hd sts = (h, fs)" "last sts = (h', fs')"
      using e by blast
    from chain obtain st rest where sts: "sts = st # rest"
      and first: "renderImplicitReference P path (snd st) d key renderer (fst st)
          = (fst (hd rest), Inr (snd (hd rest)))"
      and rc: "implicit_chain P path renderer m rest"
      unfolding implicit_chain_Cons by blast
    from rc have ne: "rest \<noteq> []" by (auto simp: implicit_chain_def)
    have st: "st = (h, fs)" using ends(1) sts by simp
    have "last rest = (h', fs')" using ends(2) sts ne by simp
    with rc have "render_implicit_all P path renderer m (snd (hd rest)) (fst (hd rest)) = (h', Inr fs')"
      using Cons.IH[of "snd (hd rest)" "fst (hd rest)"] by auto
    then show "render_implicit_all P path renderer (e # m) fs h = (h', Inr fs')"
      using first st e by simp
  qed
qed

lemma ex_render_facts:
  "snd (renderText ex_doc_parser (fst ex_collected) ''doc1'' ''[[#widget]][[!Widget]][[#widget]]Widget'' ()
        ex_def_renderer ex_renderer (snd ex_collected)) = Inr ''<Widget>Widget<Widget><Widget>''"
  "name2def (fst ex_collected) = [(''Widget'', 0), (''Gadget'', 0), (''Sprocket'', 1)]"
  by code_simp+

text \<open>
  C5. \<^verbatim>\<open>renderText\<close> returns \<open>out\<close> exactly when: the text is put in one new fragment
  with \<open>skip\<close> false; \<^verbatim>\<open>renderDefinition\<close> on that single fragment returns; then
  \<^verbatim>\<open>renderExplicitOrEscapedReference\<close> on its result returns; then
  \<^verbatim>\<open>renderImplicitReference\<close> is called once for each entry of \<open>name2def\<close>, in
  insertion order, each call on the store and fragments the one before left, and all
  return; and \<open>out\<close> is the concatenation of the contents of the last fragment sequence.
\<close>

theorem renderText_stages:
  "(renderText P b path s pos defRenderer refRenderer h = (h', Inr out)) =
     (\<exists>a h0 h1 fs1 h2 fs2 fs3 sts.
        new_fragment \<lparr> content = s, skip = False, position = pos \<rparr> h = (a, h0) \<and>
        frags (fragments h0) a = \<lparr> content = s, skip = False, position = pos \<rparr> \<and>
        renderDefinition P b path [a] defRenderer h0 = (h1, Inr fs1) \<and>
        renderExplicitOrEscapedReference P b path fs1 refRenderer h1 = (h2, Inr fs2) \<and>
        implicit_chain P path refRenderer (name2def b) sts \<and>
        hd sts = (h2, fs2) \<and> last sts = (h', fs3) \<and>
        out = concat (map (get_content h') fs3))"
proof -
  obtain a h0 where nf: "new_fragment \<lparr> content = s, skip = False, position = pos \<rparr> h = (a, h0)"
    by (cases "new_fragment \<lparr> content = s, skip = False, position = pos \<rparr> h")
  then have fr: "frags (fragments h0) a = \<lparr> content = s, skip = False, position = pos \<rparr>"
    by (auto simp: new_fragment_def Let_def)
  have "(renderText P b path s pos defRenderer refRenderer h = (h', Inr out)) =
     (\<exists>h1 fs1 h2 fs2 fs3.
        renderDefinition P b path [a] defRenderer h0 = (h1, Inr fs1) \<and>
        renderExplicitOrEscapedReference P b path fs1 refRenderer h1 = (h2, Inr fs2) \<and>
        render_implicit_all P path refRenderer (name2def b) fs2 h2 = (h', Inr fs3) \<and>
        out = concat (map (get_content h') fs3))"
    using nf by (auto simp: renderText_def split: prod.splits sum.splits)
  also have "\<dots> = (\<exists>h1 fs1 h2 fs2 fs3 sts.
        renderDefinition P b path [a] defRenderer h0 = (h1, Inr fs1) \<and>
        renderExplicitOrEscapedReference P b path fs1 refRenderer h1 = (h2, Inr fs2) \<and>
        implicit_chain P path refRenderer (name2def b) sts \<and>
        hd sts = (h2, fs2) \<and> last sts = (h', fs3) \<and>
        out = concat (map (get_content h') fs3))"
    unfolding render_implicit_all_chain by blast
  finally show ?thesis
    using nf fr by auto
qed

theorem renderText_stages_witness:
  "\<exists>a h0 h1 fs1 h2 fs2 fs3 sts.
     new_fragment \<lparr> content = ''[[#widget]][[!Widget]][[#widget]]Widget'', skip = False, position = () \<rparr>
       (snd ex_collected) = (a, h0) \<and>
     frags (fragments h0) a
       = \<lparr> content = ''[[#widget]][[!Widget]][[#widget]]Widget'', skip = False, position = () \<rparr> \<and>
     renderDefinition ex_doc_parser (fst ex_collected) ''doc1'' [a] ex_def_renderer h0 = (h1, Inr fs1) \<and>
     renderExplicitOrEscapedReference ex_doc_parser (fst ex_collected) ''doc1'' fs1 ex_renderer h1
       = (h2, Inr fs2) \<and>
     implicit_chain ex_doc_parser ''doc1'' ex_renderer
       [(''Widget'', 0), (''Gadget'', 0), (''Sprocket'', 1)] sts \<and>
     hd sts = (h2, fs2) \<and> last sts = (snd ex_state, fs3) \<and>
     ''<Widget>Widget<Widget><Widget>'' = concat (map (get_content (snd ex_state)) fs3)"
proof -
  have run: "renderText ex_doc_parser (fst ex_collected) ''doc1'' ''[[#widget]][[!Widget]][[#widget]]Widget'' ()
        ex_def_renderer ex_renderer (snd ex_collected) = (snd ex_state, Inr ''<Widget>Widget<Widget><Widget>'')"
    using ex_render_facts(1) by (simp add: ex_state_def prod_eq_iff)
  from renderText_stages[THEN iffD1, OF run] show ?thesis
    unfolding ex_render_facts(2) .
qed

end
